theory Spec2Isabelle
  imports Main "HOL-Library.Word"
begin

section \<open>hd-idle: the data model\<close>

text \<open>
  A shallow embedding of \<^verbatim>\<open>hd-idle.c\<close>. The two singly linked lists of the program
  (\<^verbatim>\<open>it_root\<close>, \<^verbatim>\<open>ds_root\<close>) are HOL lists, head first. \<^verbatim>\<open>time_t\<close> values and
  the \<^verbatim>\<open>int\<close> idle times are \<open>int\<close>: the program only subtracts and compares
  them, and signed overflow is undefined in C. The \<^verbatim>\<open>unsigned int\<close> counters read from
  \<^verbatim>\<open>/proc/diskstats\<close> are 32-bit words; the program only compares them for equality.

  Every answer the operating system gives (the clock, \<^verbatim>\<open>stat\<close>, \<^verbatim>\<open>malloc\<close>,
  \<^verbatim>\<open>open\<close>, \<^verbatim>\<open>ioctl\<close>, \<^verbatim>\<open>fopen\<close>, the value of the volatile flag
  \<^verbatim>\<open>break_loop\<close> when it is read) is an input of the model, attached to the command-line
  option or statistics line whose processing asks for it. Everything the program does to
  the outside is an \<open>event\<close> in the returned trace; a message on the error stream is
  recorded by the text the program supplies, without the trailing newline and without the
  text \<^verbatim>\<open>perror\<close> adds. Output of \<^verbatim>\<open>dprintf\<close> (debug mode), \<^verbatim>\<open>daemonize\<close>
  and the installation of the signal handler are not part of the model. Disk names are
  taken to fit the 50 bytes of \<^verbatim>\<open>name\<close>.
\<close>

type_synonym time_t = int
type_synonym uint = "32 word"
type_synonym uchar = "8 word"

definition DEFAULT_IDLE_TIME :: int where
  "DEFAULT_IDLE_TIME = 600"

definition INT_MAX :: int where
  "INT_MAX = 2147483647"

text \<open>\<^verbatim>\<open>CHECK_CONDITION\<close> of \<^verbatim>\<open>scsi/scsi.h\<close>, as a masked status.\<close>

definition CHECK_CONDITION :: uchar where
  "CHECK_CONDITION = 1"

text \<open>\<^verbatim>\<open>struct idle_time_t\<close>; a \<^verbatim>\<open>NULL\<close> name is \<open>None\<close>.\<close>

record idle_time_t =
  it_name :: "string option"
  it_idle_time :: int
  name_allocd :: bool

text \<open>\<^verbatim>\<open>struct disk_stats_t\<close>.\<close>

record disk_stats_t =
  name :: string
  idle_time :: int
  last_io :: time_t
  spindown :: time_t
  spinup :: time_t
  reads :: uint
  writes :: uint
  spun_down :: bool

subsection \<open>Answers of the operating system\<close>

text \<open>
  What \<^verbatim>\<open>open\<close> and \<^verbatim>\<open>ioctl(SG_IO)\<close> answer inside \<^verbatim>\<open>spindown_disk\<close>:
  the open fails, the ioctl fails, or the ioctl returns with a masked status and the
  sense bytes the device wrote (\<^verbatim>\<open>sb_len_wr\<close> of them).
\<close>

datatype sg_result = Open_fails | Ioctl_fails | Sg_done uchar "uchar list"

text \<open>
  What \<^verbatim>\<open>log_spinup\<close> is answered: whether \<^verbatim>\<open>fopen(logfile, "a")\<close> succeeds, the
  two clock readings it takes (line 511 for the date and time columns, line 521 for the
  stopped column), and the value of \<^verbatim>\<open>break_loop\<close> at its two reads.
\<close>

record log_in =
  lg_fopen :: bool
  lg_now :: time_t
  lg_time :: time_t
  lg_brk1 :: bool
  lg_brk2 :: bool

text \<open>
  One line of the statistics file for which \<^verbatim>\<open>sscanf\<close> returned 3: the three fields
  stored into \<^verbatim>\<open>tmp\<close>, the clock reading \<^verbatim>\<open>now\<close> of line 311, the answer of
  \<^verbatim>\<open>stat\<close> (major and minor number of \<^verbatim>\<open>st_rdev\<close>, or failure), of \<^verbatim>\<open>malloc\<close>
  should the disk be new, and of the device and the log file should they be used.
\<close>

record probe_in =
  p_name :: string
  p_reads :: uint
  p_writes :: uint
  p_now :: time_t
  p_stat :: "(uint \<times> uint) option"
  p_malloc :: bool
  p_sg :: sg_result
  p_log :: log_in

subsection \<open>Effects\<close>

datatype io =
    Open_dev string
  | Sg_io_stop string
  | Close_dev string
  | Perror string
  | Eprint_status uchar
  | Phex "uchar list"

datatype event =
    Spindown string "io list"
  | Log_line string time_t string int int
  | Log_pause
  | Sync
  | Stderr string
  | Usage
  | Fopen_stat
  | Fclose_stat
  | Sleep int

section \<open>The helpers\<close>

text \<open>\<^verbatim>\<open>snprintf(dev_name, 100, "/dev/%s", name)\<close>: at most 99 characters are kept.\<close>

definition dev_name :: "string \<Rightarrow> string" where
  "dev_name nm = take 99 (''/dev/'' @ nm)"

text \<open>
  \<^verbatim>\<open>spindown_disk\<close> (lines 451-494). It returns nothing: the caller sees none of the
  three outcomes. The result here is what it did.
\<close>

fun spindown_disk :: "string \<Rightarrow> sg_result \<Rightarrow> io list" where
  "spindown_disk nm Open_fails = [Open_dev (dev_name nm), Perror (dev_name nm)]"
| "spindown_disk nm Ioctl_fails =
     [Open_dev (dev_name nm), Sg_io_stop (dev_name nm),
      Perror (take 99 (''ioctl on '' @ nm @ '':'')), Close_dev (dev_name nm)]"
| "spindown_disk nm (Sg_done status sense) =
     [Open_dev (dev_name nm), Sg_io_stop (dev_name nm)] @
     (if status \<noteq> 0
      then Eprint_status status # (if status = CHECK_CONDITION then [Phex sense] else [])
      else []) @
     [Close_dev (dev_name nm)]"

text \<open>
  \<^verbatim>\<open>log_spinup\<close> (lines 497-535). The line written carries the log file, the clock
  reading that \<^verbatim>\<open>strftime\<close> formats, the disk, and the two durations.
\<close>

definition log_spinup :: "string \<Rightarrow> disk_stats_t \<Rightarrow> log_in \<Rightarrow> event list" where
  "log_spinup logfile ds lg =
     (if lg_fopen lg then
        [Log_line logfile (lg_now lg) (name ds)
           (spindown ds - spinup ds) (lg_time lg - spindown ds)] @
        (if \<not> lg_brk1 lg then Log_pause # (if \<not> lg_brk2 lg then [Sync] else []) else [])
      else [])"

text \<open>
  \<^verbatim>\<open>is_scsi_disk\<close> (lines 625-640), given the answer of \<^verbatim>\<open>stat\<close> on the device
  path: the message printed, if any, and the verdict.
\<close>

definition is_scsi_disk :: "string \<Rightarrow> (uint \<times> uint) option \<Rightarrow> event list \<times> bool" where
  "is_scsi_disk nm st =
     (case st of
        None \<Rightarrow> ([Stderr (take 99 (''stat('' @ dev_name nm @ ''):''))], False)
      | Some (major, minor) \<Rightarrow> ([], major = 8 \<and> minor mod 16 = 0))"

text \<open>\<^verbatim>\<open>get_diskstats\<close> (lines 439-448): the position of the first record of that name.\<close>

fun get_diskstats :: "disk_stats_t list \<Rightarrow> string \<Rightarrow> nat option" where
  "get_diskstats [] nm = None"
| "get_diskstats (ds # dss) nm =
     (if name ds = nm then Some 0 else map_option Suc (get_diskstats dss nm))"

text \<open>
  The lookup loop of lines 338-343: the idle time of the first entry whose name is
  \<^verbatim>\<open>NULL\<close> or equal to the disk's name; \<open>None\<close> when the loop runs off the list.
\<close>

fun find_idle_time :: "idle_time_t list \<Rightarrow> string \<Rightarrow> int option" where
  "find_idle_time [] nm = None"
| "find_idle_time (it # its) nm =
     (if it_name it = None \<or> it_name it = Some nm then Some (it_idle_time it)
      else find_idle_time its nm)"

section \<open>The state machine of one disk\<close>

text \<open>
  Lines 323-343 after a successful \<^verbatim>\<open>malloc\<close>: the new record is a copy of \<^verbatim>\<open>tmp\<close>
  (all fields zero but name and counters), stamped with \<^verbatim>\<open>now\<close>.
\<close>

definition new_disk :: "idle_time_t list \<Rightarrow> probe_in \<Rightarrow> disk_stats_t" where
  "new_disk it_root p =
     \<lparr> name = p_name p,
       idle_time = (case find_idle_time it_root (p_name p) of Some t \<Rightarrow> t | None \<Rightarrow> 0),
       last_io = p_now p, spindown = 0, spinup = p_now p,
       reads = p_reads p, writes = p_writes p, spun_down = False \<rparr>"

text \<open>Lines 345-368: a disk seen before, with its record \<open>ds\<close>.\<close>

definition known_disk ::
  "bool \<Rightarrow> string \<Rightarrow> probe_in \<Rightarrow> disk_stats_t \<Rightarrow> event list \<times> disk_stats_t" where
  "known_disk have_logfile logfile p ds =
     (if reads ds = p_reads p \<and> writes ds = p_writes p then
        (if \<not> spun_down ds then
           (if idle_time ds \<noteq> 0 \<and> p_now p - last_io ds \<ge> idle_time ds then
              ([Spindown (name ds) (spindown_disk (name ds) (p_sg p))],
               ds\<lparr>spindown := p_now p, spun_down := True\<rparr>)
            else ([], ds))
         else ([], ds))
      else
        (let (ev, ds1) =
               (if spun_down ds then
                  ((if have_logfile then log_spinup logfile ds (p_log p) else []),
                   ds\<lparr>spinup := p_now p\<rparr>)
                else ([], ds))
         in (ev, ds1\<lparr>reads := p_reads p, writes := p_writes p,
                     last_io := p_now p, spun_down := False\<rparr>)))"

section \<open>The registry: one statistics line, one snapshot\<close>

text \<open>
  What option processing leaves behind. \<open>it_cur\<close> is the entry the variable \<^verbatim>\<open>it\<close>
  points to; at every point of the option loop it is also the head of the list
  (\<^verbatim>\<open>it_root = it\<close> at lines 202 and 224), and \<open>it_rest\<close> is the chain behind it.
\<close>

record config =
  it_cur :: idle_time_t
  it_rest :: "idle_time_t list"
  logfile :: string
  have_logfile :: bool
  foreground :: nat
  debug :: nat

definition it_root :: "config \<Rightarrow> idle_time_t list" where
  "it_root c = it_cur c # it_rest c"

text \<open>
  The body of the \<^verbatim>\<open>fgets\<close> loop (lines 311-368) for a line that \<^verbatim>\<open>sscanf\<close> parsed.
  The third component is \<open>Some rc\<close> when the body leaves through \<^verbatim>\<open>_return(rc)\<close>,
  \<open>None\<close> when the loop goes on with the next line.
\<close>

definition probe ::
  "config \<Rightarrow> probe_in \<Rightarrow> disk_stats_t list \<Rightarrow> event list \<times> disk_stats_t list \<times> int option" where
  "probe c p ds_root =
     (case is_scsi_disk (p_name p) (p_stat p) of
        (ev, False) \<Rightarrow> (ev, ds_root, None)
      | (ev, True) \<Rightarrow>
          (case get_diskstats ds_root (p_name p) of
             None \<Rightarrow>
               (if p_malloc p then (ev, new_disk (it_root c) p # ds_root, None)
                else (ev @ [Stderr ''out of memory''], ds_root, Some 2))
           | Some i \<Rightarrow>
               (case known_disk (have_logfile c) (logfile c) p (ds_root ! i) of
                  (ev', ds') \<Rightarrow> (ev @ ev', ds_root[i := ds'], None))))"

text \<open>
  The \<^verbatim>\<open>fgets\<close> loop (lines 308-370) over the lines of one snapshot; \<open>None\<close> is a
  line for which \<^verbatim>\<open>sscanf\<close> did not return 3.
\<close>

fun read_stats ::
  "config \<Rightarrow> probe_in option list \<Rightarrow> disk_stats_t list \<Rightarrow>
   event list \<times> disk_stats_t list \<times> int option" where
  "read_stats c [] dss = ([], dss, None)"
| "read_stats c (None # ls) dss = read_stats c ls dss"
| "read_stats c (Some p # ls) dss =
     (case probe c p dss of
        (ev, dss', Some rc) \<Rightarrow> (ev, dss', Some rc)
      | (ev, dss', None) \<Rightarrow>
          (case read_stats c ls dss' of (ev', r) \<Rightarrow> (ev @ ev', r)))"

section \<open>The poll loop\<close>

text \<open>
  One iteration of \<^verbatim>\<open>for (;;)\<close> is given the value of \<^verbatim>\<open>break_loop\<close> at the read of
  line 298, the answer of \<^verbatim>\<open>fopen\<close> on the statistics file (\<open>None\<close>: it fails) with
  the lines \<^verbatim>\<open>fgets\<close> then returns, and the value of \<^verbatim>\<open>break_loop\<close> at line 374.
\<close>

record tick_in =
  t_brk1 :: bool
  t_stat :: "probe_in option list option"
  t_brk2 :: bool

text \<open>
  The loop of lines 293-377 on a finite prefix of iterations. The last component is
  \<open>Some rc\<close> when \<^verbatim>\<open>main\<close> leaves the loop with return code \<open>rc\<close> (\<^verbatim>\<open>rc\<close> is still
  0 at a \<^verbatim>\<open>break\<close>), and \<open>None\<close> when the loop is still running after the prefix.
\<close>

fun main_loop ::
  "config \<Rightarrow> int \<Rightarrow> tick_in list \<Rightarrow> disk_stats_t list \<Rightarrow>
   event list \<times> disk_stats_t list \<times> int option" where
  "main_loop c slp [] dss = ([], dss, None)"
| "main_loop c slp (t # ts) dss =
     (if t_brk1 t then ([], dss, Some 0)
      else
        (case t_stat t of
           None \<Rightarrow> ([Stderr ''/proc/diskstats''], dss, Some 2)
         | Some ls \<Rightarrow>
             (case read_stats c ls dss of
                (ev, dss', Some rc) \<Rightarrow> (Fopen_stat # ev, dss', Some rc)
              | (ev, dss', None) \<Rightarrow>
                  (if t_brk2 t then (Fopen_stat # ev @ [Fclose_stat], dss', Some 0)
                   else
                     (case main_loop c slp ts dss' of
                        (ev', r) \<Rightarrow> (Fopen_stat # ev @ [Fclose_stat, Sleep slp] @ ev', r))))))"

section \<open>Start-up\<close>

text \<open>
  \<^verbatim>\<open>disk_name\<close> (lines 546-584), given the answers of \<^verbatim>\<open>realpath\<close> and of
  \<^verbatim>\<open>strdup\<close>. \<open>Inr (s, b)\<close>: the name returned, and whether it is a fresh copy (the
  caller's \<^verbatim>\<open>it->name != optarg\<close>); \<open>Inl rc\<close>: \<^verbatim>\<open>exit(rc)\<close>.
\<close>

definition isdigit :: "char \<Rightarrow> bool" where
  "isdigit ch = (ch \<in> set ''0123456789'')"

definition disk_name ::
  "string \<Rightarrow> string option \<Rightarrow> bool \<Rightarrow> event list \<times> (int + string \<times> bool)" where
  "disk_name path rp dup_ok =
     (if path = [] \<or> hd path \<noteq> CHR ''/'' then ([], Inr (path, False))
      else
        (case rp of
           None \<Rightarrow> ([Stderr (take 4115 (''realpath('' @ path @ '')''))], Inr (path, False))
         | Some buf \<Rightarrow>
             (let stripped = rev (dropWhile isdigit (rev buf));
                  s = rev (takeWhile (\<lambda>ch. ch \<noteq> CHR ''/'') (rev stripped))
              in if dup_ok then ([], Inr (s, True))
                 else ([Stderr ''out of memory''], Inl 2))))"

text \<open>
  What \<^verbatim>\<open>getopt\<close> returns, one value per loop iteration, with the option's argument.
  \<open>Opt_i\<close> carries the value of \<^verbatim>\<open>atoi(optarg)\<close>. \<open>Opt_t\<close> and \<open>Opt_a\<close> carry the
  answers the operating system gives while they are processed.
\<close>

record a_in =
  a_malloc :: bool
  a_realpath :: "string option"
  a_strdup :: bool

datatype opt =
    Opt_t string sg_result
  | Opt_a string a_in
  | Opt_i int
  | Opt_l string
  | Opt_f
  | Opt_d
  | Opt_h
  | Opt_colon char
  | Opt_unknown char

text \<open>The \<^verbatim>\<open>switch\<close> of lines 206-259. \<open>Inl rc\<close>: the process ends with code \<open>rc\<close>.\<close>

fun handle_opt :: "opt \<Rightarrow> config \<Rightarrow> event list \<times> (int + config)" where
  "handle_opt (Opt_t nm sg) c = ([Spindown nm (spindown_disk nm sg)], Inl 0)"
| "handle_opt (Opt_a path a) c =
     (if \<not> a_malloc a then ([Stderr ''out of memory''], Inl 2)
      else
        (case disk_name path (a_realpath a) (a_strdup a) of
           (ev, Inl rc) \<Rightarrow> (ev, Inl rc)
         | (ev, Inr (s, allocd)) \<Rightarrow>
             (ev, Inr (c\<lparr>it_cur := \<lparr>it_name = Some s, it_idle_time = DEFAULT_IDLE_TIME,
                                   name_allocd = allocd\<rparr>,
                         it_rest := it_cur c # it_rest c\<rparr>))))"
| "handle_opt (Opt_i v) c = ([], Inr (c\<lparr>it_cur := (it_cur c)\<lparr>it_idle_time := v\<rparr>\<rparr>))"
| "handle_opt (Opt_l f) c = ([], Inr (c\<lparr>logfile := f, have_logfile := True\<rparr>))"
| "handle_opt Opt_f c = ([], Inr (c\<lparr>foreground := foreground c + 1\<rparr>))"
| "handle_opt Opt_d c = ([], Inr (c\<lparr>debug := debug c + 1\<rparr>))"
| "handle_opt Opt_h c = ([Usage], Inl 0)"
| "handle_opt (Opt_colon ch) c =
     ([Stderr (''error: option -'' @ [ch] @ '' requires an argument'')], Inl 1)"
| "handle_opt (Opt_unknown ch) c = ([Stderr (''error: unknown option -'' @ [ch])], Inl 1)"

text \<open>The \<^verbatim>\<open>getopt\<close> loop of lines 205-260.\<close>

fun getopt_loop :: "opt list \<Rightarrow> config \<Rightarrow> event list \<times> (int + config)" where
  "getopt_loop [] c = ([], Inr c)"
| "getopt_loop (x # xs) c =
     (case handle_opt x c of
        (ev, Inl rc) \<Rightarrow> (ev, Inl rc)
      | (ev, Inr c') \<Rightarrow> (case getopt_loop xs c' of (ev', r) \<Rightarrow> (ev @ ev', r)))"

text \<open>Lines 198-202 and the initialisers of lines 178-186.\<close>

definition config0 :: config where
  "config0 =
     \<lparr> it_cur = \<lparr>it_name = None, it_idle_time = DEFAULT_IDLE_TIME, name_allocd = False\<rparr>,
       it_rest = [], logfile = ''/dev/null'', have_logfile = False,
       foreground = 0, debug = 0 \<rparr>"

text \<open>C's \<^verbatim>\<open>/\<close> on \<^verbatim>\<open>int\<close>: the quotient is truncated towards zero.\<close>

definition c_div :: "int \<Rightarrow> int \<Rightarrow> int" where
  "c_div a b = sgn a * sgn b * (\<bar>a\<bar> div \<bar>b\<bar>)"

text \<open>The loop of lines 264-268, with the running value of \<^verbatim>\<open>min_idle_time\<close>.\<close>

fun min_idle_time :: "idle_time_t list \<Rightarrow> int \<Rightarrow> int" where
  "min_idle_time [] m = m"
| "min_idle_time (x # xs) m =
     min_idle_time xs (if it_idle_time x \<noteq> 0 \<and> it_idle_time x < m then it_idle_time x else m)"

text \<open>Lines 263-271: the value of \<^verbatim>\<open>sleep_time\<close> that every \<^verbatim>\<open>sleep\<close> of the loop is given.\<close>

definition sleep_time :: "idle_time_t list \<Rightarrow> int" where
  "sleep_time its =
     (let s = c_div (min_idle_time its INT_MAX) 10 in if s = 0 then 1 else s)"

text \<open>
  \<^verbatim>\<open>main\<close>: the first \<^verbatim>\<open>malloc\<close> (lines 194-197, answer \<open>m0\<close>), the options, the
  sleep time, the poll loop. The result is the trace and the exit status, \<open>None\<close> while
  the daemon is still running.
\<close>

definition main :: "bool \<Rightarrow> opt list \<Rightarrow> tick_in list \<Rightarrow> event list \<times> int option" where
  "main m0 opts ticks =
     (if \<not> m0 then ([Stderr ''out of memory''], Some 1)
      else
        (case getopt_loop opts config0 of
           (ev, Inl rc) \<Rightarrow> (ev, Some rc)
         | (ev, Inr c) \<Rightarrow>
             (case main_loop c (sleep_time (it_root c)) ticks [] of
                (ev', dss, r) \<Rightarrow> (ev @ ev', r))))"

section \<open>Notions used to state the properties\<close>

text \<open>
  The successive visits of lines 345-368 to one record: the poll loop, seen from one
  disk. \<open>probe_known\<close> and \<open>probe_other\<close> below show that this is what \<open>probe\<close> does to
  the record of a disk, and that lines of other disks leave the record alone;
  \<open>read_stats_projection\<close> and \<open>main_loop_projection\<close> show the same of a snapshot
  and of the poll loop.
\<close>

fun run_known ::
  "bool \<Rightarrow> string \<Rightarrow> probe_in list \<Rightarrow> disk_stats_t \<Rightarrow> event list \<times> disk_stats_t" where
  "run_known hl lf [] ds = ([], ds)"
| "run_known hl lf (p # ps) ds =
     (case known_disk hl lf p ds of
        (ev, ds') \<Rightarrow> (case run_known hl lf ps ds' of (ev', ds'') \<Rightarrow> (ev @ ev', ds'')))"

text \<open>
  The lines of a snapshot that reach the record of the disk \<open>nm\<close>: those that name it
  and that \<^verbatim>\<open>is_scsi_disk\<close> accepts. \<open>tick_lines\<close>: the lines of successive snapshots.
\<close>

fun lines_of :: "string \<Rightarrow> probe_in option list \<Rightarrow> probe_in list" where
  "lines_of nm [] = []"
| "lines_of nm (None # ls) = lines_of nm ls"
| "lines_of nm (Some p # ls) =
     (if p_name p = nm \<and> snd (is_scsi_disk (p_name p) (p_stat p)) then p # lines_of nm ls
      else lines_of nm ls)"

fun tick_lines :: "tick_in list \<Rightarrow> probe_in option list" where
  "tick_lines [] = []"
| "tick_lines (t # ts) = (case t_stat t of None \<Rightarrow> [] | Some ls \<Rightarrow> ls) @ tick_lines ts"

text \<open>Calls of \<^verbatim>\<open>spindown_disk\<close> on the disk \<open>nm\<close>, in a trace.\<close>

definition is_spindown_of :: "string \<Rightarrow> event \<Rightarrow> bool" where
  "is_spindown_of nm e = (case e of Spindown n acts \<Rightarrow> n = nm | _ \<Rightarrow> False)"

text \<open>Every record of the disk \<open>nm\<close> in the registry has idle time 0.\<close>

definition never_timed :: "string \<Rightarrow> disk_stats_t list \<Rightarrow> bool" where
  "never_timed nm dss = (\<forall>ds\<in>set dss. name ds = nm \<longrightarrow> idle_time ds = 0)"

text \<open>Lines written to the spin-up log, in a trace.\<close>

definition is_log_line :: "event \<Rightarrow> bool" where
  "is_log_line e = (case e of Log_line f t d r s \<Rightarrow> True | _ \<Rightarrow> False)"

text \<open>
  The three ways the stop command fails: the device cannot be opened, the ioctl fails, or
  it returns a status other than 0. \<open>is_report\<close>: what \<^verbatim>\<open>spindown_disk\<close> writes to
  the error stream.
\<close>

definition sg_failed :: "sg_result \<Rightarrow> bool" where
  "sg_failed r =
     (case r of Open_fails \<Rightarrow> True | Ioctl_fails \<Rightarrow> True | Sg_done status sense \<Rightarrow> status \<noteq> 0)"

definition is_report :: "io \<Rightarrow> bool" where
  "is_report a = (case a of Perror m \<Rightarrow> True | Eprint_status s \<Rightarrow> True | _ \<Rightarrow> False)"

text \<open>Calls of \<^verbatim>\<open>sleep(sleep_time)\<close> at line 376, in a trace.\<close>

definition is_sleep :: "event \<Rightarrow> bool" where
  "is_sleep e = (case e of Sleep n \<Rightarrow> True | _ \<Rightarrow> False)"

text \<open>The nonzero idle times of an idle-time list.\<close>

definition nonzero_timeouts :: "idle_time_t list \<Rightarrow> int set" where
  "nonzero_timeouts its = {t \<in> it_idle_time ` set its. t \<noteq> 0}"

text \<open>The rule that option -a creates, when its allocations succeed.\<close>

definition named_rule :: "string \<Rightarrow> a_in \<Rightarrow> idle_time_t" where
  "named_rule path a =
     (case snd (disk_name path (a_realpath a) (a_strdup a)) of
        Inr (s, allocd) \<Rightarrow> \<lparr>it_name = Some s, it_idle_time = DEFAULT_IDLE_TIME, name_allocd = allocd\<rparr>
      | Inl rc \<Rightarrow> \<lparr>it_name = Some path, it_idle_time = DEFAULT_IDLE_TIME, name_allocd = False\<rparr>)"

text \<open>
  The construction rule of the specification (section 4.1), with the rules kept in the
  order in which the configuration supplies them, oldest first: a select-disk entry adds
  a rule at the end, a set-timeout entry changes the rule added last. The rules are
  evaluated in the reverse of this order.
\<close>

fun supplied :: "opt list \<Rightarrow> idle_time_t list \<Rightarrow> idle_time_t list" where
  "supplied [] rs = rs"
| "supplied (Opt_a path a # xs) rs = supplied xs (rs @ [named_rule path a])"
| "supplied (Opt_i v # xs) rs = supplied xs (butlast rs @ [(last rs)\<lparr>it_idle_time := v\<rparr>])"
| "supplied (x # xs) rs = supplied xs rs"

text \<open>The implicit default rule, created before any named rule (lines 198-201).\<close>

definition default_rule :: idle_time_t where
  "default_rule = \<lparr>it_name = None, it_idle_time = DEFAULT_IDLE_TIME, name_allocd = False\<rparr>"

definition rules_supplied :: "opt list \<Rightarrow> idle_time_t list" where
  "rules_supplied opts = supplied opts [default_rule]"

text \<open>The pattern-less rule is there, is last, and is the only one without a pattern.\<close>

definition default_last :: "idle_time_t list \<Rightarrow> bool" where
  "default_last its =
     (its \<noteq> [] \<and> it_name (last its) = None \<and> (\<forall>r\<in>set (butlast its). it_name r \<noteq> None))"

text \<open>
  Whether the handle of the statistics file is open after a trace: it is opened by
  the fopen of line 301 and closed by the fclose of line 372.
\<close>

definition handle_step :: "bool \<Rightarrow> event \<Rightarrow> bool" where
  "handle_step b e = (if e = Fopen_stat then True else if e = Fclose_stat then False else b)"

definition stat_open :: "event list \<Rightarrow> bool" where
  "stat_open ev = foldl handle_step False ev"

text \<open>An iteration at which \<^verbatim>\<open>break_loop\<close> is 0 at both checkpoints.\<close>

definition unflagged :: "tick_in \<Rightarrow> bool" where
  "unflagged t = (\<not> t_brk1 t \<and> \<not> t_brk2 t)"

text \<open>The two reports that go with return code 2 in the poll loop.\<close>

definition is_fatal_report :: "event \<Rightarrow> bool" where
  "is_fatal_report e = (e = Stderr ''/proc/diskstats'' \<or> e = Stderr ''out of memory'')"

text \<open>Events that are neither the opening or closing of the statistics file nor a sleep.\<close>

definition inner :: "event \<Rightarrow> bool" where
  "inner e = (e \<noteq> Fopen_stat \<and> e \<noteq> Fclose_stat \<and> \<not> is_sleep e)"

subsection \<open>Example inputs\<close>

definition ds30 :: disk_stats_t where
  "ds30 = \<lparr> name = ''sdb'', idle_time = 30, last_io = 1000, spindown = 0, spinup = 1000,
       reads = 5, writes = 7, spun_down = False \<rparr>"

definition lg0 :: log_in where
  "lg0 = \<lparr> lg_fopen = True, lg_now = 0, lg_time = 0, lg_brk1 = False, lg_brk2 = False \<rparr>"

definition at30 :: "time_t \<Rightarrow> probe_in" where
  "at30 t = \<lparr> p_name = ''sdb'', p_reads = 5, p_writes = 7, p_now = t,
       p_stat = Some (8, 16), p_malloc = True, p_sg = Sg_done 0 [], p_log = lg0 \<rparr>"

definition ds0 :: disk_stats_t where
  "ds0 = \<lparr> name = ''sdb'', idle_time = 0, last_io = 1000, spindown = 0, spinup = 1000,
       reads = 5, writes = 7, spun_down = False \<rparr>"

definition snapshot :: "time_t \<Rightarrow> tick_in" where
  "snapshot t = \<lparr> t_brk1 = False, t_stat = Some [Some (at30 t)], t_brk2 = False \<rparr>"

definition ds_down :: disk_stats_t where
  "ds_down = \<lparr> name = ''sdb'', idle_time = 30, last_io = 1470, spindown = 1500, spinup = 1000,
       reads = 5, writes = 7, spun_down = True \<rparr>"

definition woke :: "log_in \<Rightarrow> probe_in" where
  "woke lg = \<lparr> p_name = ''sdb'', p_reads = 6, p_writes = 7, p_now = 1550,
       p_stat = Some (8, 16), p_malloc = True, p_sg = Sg_done 0 [], p_log = lg \<rparr>"

definition lg_late :: log_in where
  "lg_late = \<lparr> lg_fopen = True, lg_now = 1551, lg_time = 1551, lg_brk1 = False, lg_brk2 = False \<rparr>"

definition lg_closed :: log_in where
  "lg_closed = \<lparr> lg_fopen = False, lg_now = 1550, lg_time = 1550, lg_brk1 = False, lg_brk2 = False \<rparr>"

definition failing :: "time_t \<Rightarrow> probe_in" where
  "failing t = \<lparr> p_name = ''sdb'', p_reads = 5, p_writes = 7, p_now = t,
       p_stat = Some (8, 16), p_malloc = True, p_sg = Open_fails, p_log = lg0 \<rparr>"

definition only_default :: "int \<Rightarrow> idle_time_t list" where
  "only_default t = [\<lparr>it_name = None, it_idle_time = t, name_allocd = False\<rparr>]"

definition plain :: a_in where
  "plain = \<lparr> a_malloc = True, a_realpath = None, a_strdup = True \<rparr>"

definition two_rules :: "idle_time_t list" where
  "two_rules =
     [\<lparr>it_name = Some ''sdb'', it_idle_time = 30, name_allocd = False\<rparr>,
      \<lparr>it_name = None, it_idle_time = 600, name_allocd = False\<rparr>]"

definition sdb_twice :: "opt list" where
  "sdb_twice =
     [Opt_i 900, Opt_a ''sdb'' plain, Opt_i 30,
      Opt_a ''/dev/disk/by-label/backup'' (plain\<lparr>a_realpath := Some ''/dev/sdb12''\<rparr>), Opt_i 60]"

definition sdb_twice_config :: config where
  "sdb_twice_config =
     \<lparr> it_cur = \<lparr>it_name = Some ''sdb'', it_idle_time = 60, name_allocd = True\<rparr>,
       it_rest = [\<lparr>it_name = Some ''sdb'', it_idle_time = 30, name_allocd = False\<rparr>,
                  \<lparr>it_name = None, it_idle_time = 900, name_allocd = False\<rparr>],
       logfile = ''/dev/null'', have_logfile = False, foreground = 0, debug = 0 \<rparr>"

definition oom_tick :: tick_in where
  "oom_tick = \<lparr> t_brk1 = False, t_stat = Some [Some ((at30 1000)\<lparr>p_malloc := False\<rparr>)],
       t_brk2 = False \<rparr>"

definition no_stat_tick :: tick_in where
  "no_stat_tick = \<lparr> t_brk1 = False, t_stat = None, t_brk2 = False \<rparr>"

definition flagged_after :: "time_t \<Rightarrow> tick_in" where
  "flagged_after t = \<lparr> t_brk1 = False, t_stat = Some [Some (at30 t)], t_brk2 = True \<rparr>"

definition polls30 :: "tick_in list" where
  "polls30 = [snapshot 1010, snapshot 1020, snapshot 1030, snapshot 1040, snapshot 1050]"

definition flagged_before :: tick_in where
  "flagged_before = \<lparr> t_brk1 = True, t_stat = Some [Some (at30 1060)], t_brk2 = False \<rparr>"

definition newcomer :: probe_in where
  "newcomer = \<lparr> p_name = ''sdc'', p_reads = 1, p_writes = 1, p_now = 1060,
       p_stat = Some (8, 32), p_malloc = False, p_sg = Sg_done 0 [], p_log = lg0 \<rparr>"

definition oom_after :: tick_in where
  "oom_after = \<lparr> t_brk1 = False,
       t_stat = Some [Some (at30 1060), Some newcomer, Some (at30 1061)], t_brk2 = True \<rparr>"

section \<open>One disk over successive polls\<close>

lemma run_known_append:
  "run_known hl lf (ps @ qs) ds =
     (case run_known hl lf ps ds of
        (ev, ds') \<Rightarrow> (case run_known hl lf qs ds' of (ev', ds'') \<Rightarrow> (ev @ ev', ds'')))"
  by (induction ps arbitrary: ds) (auto split: prod.splits)

lemma known_disk_quiet:
  assumes "p_reads p = reads ds" "p_writes p = writes ds"
    and "spun_down ds \<or> idle_time ds = 0 \<or> p_now p - last_io ds < idle_time ds"
  shows "known_disk hl lf p ds = ([], ds)"
  using assms by (auto simp: known_disk_def)

lemma run_known_quiet:
  assumes "\<forall>p\<in>set ps. p_reads p = reads ds \<and> p_writes p = writes ds"
    and "spun_down ds \<or> idle_time ds = 0 \<or> (\<forall>p\<in>set ps. p_now p - last_io ds < idle_time ds)"
  shows "run_known hl lf ps ds = ([], ds)"
  using assms by (induction ps) (auto simp: known_disk_quiet)

lemma known_disk_fires:
  assumes "p_reads p = reads ds" "p_writes p = writes ds" "\<not> spun_down ds"
    and "idle_time ds \<noteq> 0" "idle_time ds \<le> p_now p - last_io ds"
  shows "known_disk hl lf p ds =
           ([Spindown (name ds) (spindown_disk (name ds) (p_sg p))],
            ds\<lparr>spindown := p_now p, spun_down := True\<rparr>)"
  using assms by (simp add: known_disk_def)

section \<open>A disk with idle time 0\<close>

lemma get_diskstats_Some:
  "get_diskstats dss nm = Some i \<Longrightarrow> i < length dss \<and> name (dss ! i) = nm"
  by (induction dss arbitrary: i) (auto split: if_splits)

lemma get_diskstats_None:
  "get_diskstats dss nm = None \<Longrightarrow> \<forall>ds\<in>set dss. name ds \<noteq> nm"
  by (induction dss) (auto split: if_splits)

lemma known_disk_name: "name (snd (known_disk hl lf p ds)) = name ds"
  by (simp add: known_disk_def)

lemma known_disk_idle_time: "idle_time (snd (known_disk hl lf p ds)) = idle_time ds"
  by (simp add: known_disk_def)

lemma log_spinup_no_spindown: "e \<in> set (log_spinup lf ds lg) \<Longrightarrow> \<not> is_spindown_of nm e"
  by (auto simp: log_spinup_def is_spindown_of_def split: if_splits)

lemma known_disk_spindown_of:
  assumes "e \<in> set (fst (known_disk hl lf p ds))" and "is_spindown_of nm e"
  shows "name ds = nm \<and> idle_time ds \<noteq> 0"
  using assms log_spinup_no_spindown [of e lf ds "p_log p" nm]
  by (auto simp: known_disk_def is_spindown_of_def split: if_splits)

lemma is_scsi_disk_no_spindown:
  "e \<in> set (fst (is_scsi_disk n st)) \<Longrightarrow> \<not> is_spindown_of nm e"
  by (auto simp: is_scsi_disk_def is_spindown_of_def split: option.splits)

lemma probe_never_timed:
  assumes "find_idle_time (it_root c) nm = Some 0" and "never_timed nm dss"
    and "probe c p dss = (ev, dss', r)"
  shows "never_timed nm dss' \<and> (\<forall>e\<in>set ev. \<not> is_spindown_of nm e)"
proof (cases "snd (is_scsi_disk (p_name p) (p_stat p))")
  case False
  then show ?thesis
    using assms(2,3) is_scsi_disk_no_spindown [of _ "p_name p" "p_stat p" nm]
    by (auto simp: probe_def split: prod.splits)
next
  case scsi: True
  show ?thesis
  proof (cases "get_diskstats dss (p_name p)")
    case None
    then show ?thesis
      using assms scsi is_scsi_disk_no_spindown [of _ "p_name p" "p_stat p" nm]
      by (auto simp: probe_def never_timed_def new_disk_def is_spindown_of_def
               split: prod.splits if_splits)
  next
    case (Some i)
    then have i: "i < length dss" "name (dss ! i) = p_name p"
      using get_diskstats_Some by blast+
    let ?k = "known_disk (have_logfile c) (logfile c) p (dss ! i)"
    have ev: "ev = fst (is_scsi_disk (p_name p) (p_stat p)) @ fst ?k"
      and dss': "dss' = dss[i := snd ?k]"
      using assms(3) scsi Some by (auto simp: probe_def split: prod.splits)
    have old: "name (dss ! i) = nm \<longrightarrow> idle_time (dss ! i) = 0"
      using assms(2) i(1) by (auto simp: never_timed_def)
    have "never_timed nm dss'"
      unfolding never_timed_def dss'
    proof
      fix ds assume "ds \<in> set (dss[i := snd ?k])"
      then have "ds = snd ?k \<or> ds \<in> set dss"
        using set_update_subset_insert by fastforce
      then show "name ds = nm \<longrightarrow> idle_time ds = 0"
        using old assms(2) by (auto simp: known_disk_name known_disk_idle_time never_timed_def)
    qed
    moreover have "\<forall>e\<in>set ev. \<not> is_spindown_of nm e"
      using old known_disk_spindown_of [of _ "have_logfile c" "logfile c" p "dss ! i" nm]
        is_scsi_disk_no_spindown [of _ "p_name p" "p_stat p" nm]
      unfolding ev by auto
    ultimately show ?thesis by simp
  qed
qed

lemma read_stats_never_timed:
  assumes "find_idle_time (it_root c) nm = Some 0"
  shows "never_timed nm dss \<Longrightarrow> read_stats c ls dss = (ev, dss', r) \<Longrightarrow>
         never_timed nm dss' \<and> (\<forall>e\<in>set ev. \<not> is_spindown_of nm e)"
proof (induction ls arbitrary: dss ev dss' r)
  case Nil
  then show ?case by simp
next
  case (Cons l ls)
  show ?case
  proof (cases l)
    case None
    then show ?thesis using Cons by simp
  next
    case (Some p)
    obtain ev1 dss1 r1 where p: "probe c p dss = (ev1, dss1, r1)"
      by (cases "probe c p dss") auto
    have one: "never_timed nm dss1 \<and> (\<forall>e\<in>set ev1. \<not> is_spindown_of nm e)"
      using probe_never_timed [OF assms Cons.prems(1) p] .
    show ?thesis
    proof (cases r1)
      case (Some rc)
      then show ?thesis using Cons.prems(2) p one \<open>l = Some p\<close> by auto
    next
      case None
      obtain ev2 dss2 r2 where rest: "read_stats c ls dss1 = (ev2, dss2, r2)"
        by (cases "read_stats c ls dss1") auto
      have two: "never_timed nm dss2 \<and> (\<forall>e\<in>set ev2. \<not> is_spindown_of nm e)"
        using Cons.IH [OF _ rest] one by simp
      show ?thesis
        using Cons.prems(2) p rest None one two \<open>l = Some p\<close> by auto
    qed
  qed
qed

lemma main_loop_never_timed:
  assumes "find_idle_time (it_root c) nm = Some 0"
  shows "never_timed nm dss \<Longrightarrow> main_loop c slp ts dss = (ev, dss', r) \<Longrightarrow>
         never_timed nm dss' \<and> (\<forall>e\<in>set ev. \<not> is_spindown_of nm e)"
proof (induction ts arbitrary: dss ev dss' r)
  case Nil
  then show ?case by simp
next
  case (Cons t ts)
  show ?case
  proof (cases "t_brk1 t \<or> t_stat t = None")
    case True
    then show ?thesis
      using Cons.prems by (auto simp: is_spindown_of_def split: if_splits)
  next
    case False
    then obtain ls where ls: "t_stat t = Some ls" and b1: "\<not> t_brk1 t" by auto
    obtain ev1 dss1 r1 where rd: "read_stats c ls dss = (ev1, dss1, r1)"
      by (cases "read_stats c ls dss") auto
    have one: "never_timed nm dss1 \<and> (\<forall>e\<in>set ev1. \<not> is_spindown_of nm e)"
      using read_stats_never_timed [OF assms Cons.prems(1) rd] .
    show ?thesis
    proof (cases "r1 \<noteq> None \<or> t_brk2 t")
      case True
      then show ?thesis
        using Cons.prems(2) ls b1 rd one
        by (auto simp: is_spindown_of_def split: if_splits option.splits)
    next
      case False
      obtain ev2 dss2 r2 where rest: "main_loop c slp ts dss1 = (ev2, dss2, r2)"
        by (cases "main_loop c slp ts dss1") auto
      have two: "never_timed nm dss2 \<and> (\<forall>e\<in>set ev2. \<not> is_spindown_of nm e)"
        using Cons.IH [OF _ rest] one by simp
      show ?thesis
        using Cons.prems(2) ls b1 rd rest False one two
        by (auto simp: is_spindown_of_def)
    qed
  qed
qed

lemma getopt_loop_no_spindown:
  "getopt_loop opts c = (ev, Inr c') \<Longrightarrow> \<forall>e\<in>set ev. \<not> is_spindown_of nm e"
proof (induction opts arbitrary: c ev)
  case Nil
  then show ?case by simp
next
  case (Cons x xs)
  obtain ev1 r1 where h: "handle_opt x c = (ev1, r1)"
    by (cases "handle_opt x c") auto
  with Cons.prems obtain c1 where r1: "r1 = Inr c1"
    by (cases r1) auto
  obtain ev2 r2 where rest: "getopt_loop xs c1 = (ev2, r2)"
    by (cases "getopt_loop xs c1") auto
  have ev: "ev = ev1 @ ev2" and r2: "r2 = Inr c'"
    using Cons.prems h r1 rest by auto
  have "\<forall>e\<in>set ev1. \<not> is_spindown_of nm e"
    using h r1
    by (cases x) (auto simp: disk_name_def is_spindown_of_def Let_def
                       split: if_splits option.splits prod.splits sum.splits)
  moreover have "\<forall>e\<in>set ev2. \<not> is_spindown_of nm e"
    using Cons.IH rest r2 by blast
  ultimately show ?case using ev by auto
qed

lemma run_known_no_spindown:
  "idle_time ds = 0 \<Longrightarrow>
   (\<forall>e\<in>set (fst (run_known hl lf ps ds)). \<not> is_spindown_of nm e) \<and>
   idle_time (snd (run_known hl lf ps ds)) = 0"
proof (induction ps arbitrary: ds)
  case Nil
  then show ?case by simp
next
  case (Cons p ps)
  have "idle_time (snd (known_disk hl lf p ds)) = 0"
    using Cons.prems by (simp add: known_disk_idle_time)
  from Cons.IH [OF this] show ?case
    using Cons.prems known_disk_spindown_of [of _ hl lf p ds nm]
    by (auto split: prod.splits)
qed

text \<open>
  C6. A record whose idle time is 0 is never handed to \<^verbatim>\<open>spindown_disk\<close>, whatever
  the polls bring (unchanged counters or not, any clock readings), and its idle time stays
  0. In a run of the daemon, a disk that the idle-time list resolves to 0 is never handed
  to \<^verbatim>\<open>spindown_disk\<close>, for any statistics and any clock.
\<close>

theorem zero_idle_time_never_spun_down:
  "(idle_time ds = 0 \<longrightarrow>
      (\<forall>e\<in>set (fst (run_known hl lf ps ds)). \<not> is_spindown_of n e) \<and>
      idle_time (snd (run_known hl lf ps ds)) = 0) \<and>
   (getopt_loop opts config0 = (ev0, Inr c) \<and> find_idle_time (it_root c) nm = Some 0 \<longrightarrow>
      (\<forall>e\<in>set (fst (main True opts ticks)). \<not> is_spindown_of nm e))"
proof (intro conjI impI)
  assume "idle_time ds = 0"
  then show "\<forall>e\<in>set (fst (run_known hl lf ps ds)). \<not> is_spindown_of n e"
    and "idle_time (snd (run_known hl lf ps ds)) = 0"
    using run_known_no_spindown by blast+
next
  assume a: "getopt_loop opts config0 = (ev0, Inr c) \<and> find_idle_time (it_root c) nm = Some 0"
  obtain ev1 dss1 r1 where ml: "main_loop c (sleep_time (it_root c)) ticks [] = (ev1, dss1, r1)"
    by (cases "main_loop c (sleep_time (it_root c)) ticks []") auto
  have "never_timed nm []" by (simp add: never_timed_def)
  then have "\<forall>e\<in>set ev1. \<not> is_spindown_of nm e"
    using main_loop_never_timed [OF _ _ ml] a by simp
  moreover have "\<forall>e\<in>set ev0. \<not> is_spindown_of nm e"
    using getopt_loop_no_spindown a by blast
  moreover have "fst (main True opts ticks) = ev0 @ ev1"
    using a ml by (simp add: main_def)
  ultimately show "\<forall>e\<in>set (fst (main True opts ticks)). \<not> is_spindown_of nm e" by auto
qed

theorem zero_idle_time_never_spun_down_witness:
  "filter (is_spindown_of ''sdb'') (fst (run_known False [] [at30 2000, at30 1000000] ds0)) = [] \<and>
   filter (is_spindown_of ''sdb'')
     (fst (main True [Opt_i 0] [snapshot 1000, snapshot 2000, snapshot 1000000])) = []"
proof -
  let ?c = "config0\<lparr>it_cur := (it_cur config0)\<lparr>it_idle_time := 0\<rparr>\<rparr>"
  have g: "getopt_loop [Opt_i 0] config0 = ([], Inr ?c)"
    by simp
  have f: "find_idle_time (it_root ?c) ''sdb'' = Some 0"
    by (simp add: it_root_def config0_def)
  have z: "idle_time ds0 = 0"
    by (simp add: ds0_def)
  show ?thesis
    using zero_idle_time_never_spun_down [of ds0 False "[]" "[at30 2000, at30 1000000]" "''sdb''"
        "[Opt_i 0]" "[]" ?c "''sdb''" "[snapshot 1000, snapshot 2000, snapshot 1000000]"] g f z
    by (simp add: filter_empty_conv)
qed

section \<open>Classification of devices\<close>

lemma word_is_8: "((major::uint) = 8) = (unat major = 8)"
  by (simp add: word_unat_eq_iff)

lemma word_mod_16: "((minor::uint) mod 16 = 0) = (16 dvd unat minor)"
  by (simp add: word_unat_eq_iff unat_mod_distrib dvd_eq_mod_eq_0)

text \<open>
  C7. When \<^verbatim>\<open>stat\<close> succeeds, \<^verbatim>\<open>is_scsi_disk\<close> accepts the device exactly when
  its major number is 8 and its minor number is a multiple of 16. When \<^verbatim>\<open>stat\<close>
  fails the device is rejected. A line whose device is rejected for its numbers leaves the
  registry as it is and does nothing.
\<close>

theorem is_scsi_disk_major_minor:
  "snd (is_scsi_disk nm (Some (major, minor))) = (unat major = 8 \<and> 16 dvd unat minor) \<and>
   \<not> snd (is_scsi_disk nm None) \<and>
   (\<not> (unat major = 8 \<and> 16 dvd unat minor) \<longrightarrow>
      probe c (p\<lparr>p_stat := Some (major, minor)\<rparr>) dss = ([], dss, None))"
  by (auto simp: is_scsi_disk_def probe_def word_is_8 word_mod_16)

theorem is_scsi_disk_major_minor_witness:
  "snd (is_scsi_disk ''sdb'' (Some (8, 32))) \<and> \<not> snd (is_scsi_disk ''sdb1'' (Some (8, 17))) \<and>
   \<not> snd (is_scsi_disk ''hda'' (Some (3, 0))) \<and>
   probe config0 ((at30 1000)\<lparr>p_stat := Some (8, 17)\<rparr>) [ds30] = ([], [ds30], None)"
  using is_scsi_disk_major_minor [of "''sdb''" 8 32 config0 "at30 1000" "[ds30]"]
    is_scsi_disk_major_minor [of "''sdb1''" 8 17 config0 "at30 1000" "[ds30]"]
    is_scsi_disk_major_minor [of "''hda''" 3 0 config0 "at30 1000" "[ds30]"]
  by simp

section \<open>Activity on a disk\<close>

lemma log_spinup_lines:
  "filter is_log_line (log_spinup lf ds lg) =
     (if lg_fopen lg
      then [Log_line lf (lg_now lg) (name ds) (spindown ds - spinup ds) (lg_time lg - spindown ds)]
      else [])"
  by (simp add: log_spinup_def is_log_line_def)

lemma known_disk_changed:
  assumes "p_reads p \<noteq> reads ds \<or> p_writes p \<noteq> writes ds"
  shows "known_disk hl lf p ds =
     ((if spun_down ds \<and> hl then log_spinup lf ds (p_log p) else []),
      ds\<lparr>spinup := (if spun_down ds then p_now p else spinup ds),
         reads := p_reads p, writes := p_writes p, last_io := p_now p, spun_down := False\<rparr>)"
  using assms by (auto simp: known_disk_def)

text \<open>
  C3, as amended. A record is polled with unchanged counters (\<open>pre\<close>) and then with
  changed counters (\<open>p0\<close>). If it was spun down, the polls \<open>pre\<close> do nothing and
  \<open>p0\<close> calls \<^verbatim>\<open>log_spinup\<close> when logging is enabled; that writes exactly one line
  if the log file can be opened, none otherwise. The line's running time is
  \<open>spindown - spinup\<close>; its stopped time is \<open>lg_time - spindown\<close>, where \<open>lg_time\<close>
  is the clock reading \<^verbatim>\<open>log_spinup\<close> takes itself, not the \<open>now\<close> of the poll.
  Then \<open>spinup\<close> is set to \<open>now\<close>. If the record was not spun down nothing is logged.
  In both cases the counters are stored, \<open>last_io\<close> is \<open>now\<close> and \<open>spun_down\<close> is
  false.
\<close>

theorem spinup_logged_and_cleared:
  assumes "p_reads p0 \<noteq> reads ds \<or> p_writes p0 \<noteq> writes ds"
    and "\<forall>p\<in>set pre. p_reads p = reads ds \<and> p_writes p = writes ds"
  shows "(spun_down ds \<longrightarrow>
            run_known hl lf (pre @ [p0]) ds =
              ((if hl then log_spinup lf ds (p_log p0) else []),
               ds\<lparr>spinup := p_now p0, reads := p_reads p0, writes := p_writes p0,
                  last_io := p_now p0, spun_down := False\<rparr>) \<and>
            filter is_log_line (fst (run_known hl lf (pre @ [p0]) ds)) =
              (if hl \<and> lg_fopen (p_log p0)
               then [Log_line lf (lg_now (p_log p0)) (name ds) (spindown ds - spinup ds)
                       (lg_time (p_log p0) - spindown ds)]
               else [])) \<and>
         (\<not> spun_down ds \<longrightarrow>
            known_disk hl lf p0 ds =
              ([], ds\<lparr>reads := p_reads p0, writes := p_writes p0,
                      last_io := p_now p0, spun_down := False\<rparr>)) \<and>
         reads (snd (known_disk hl lf p0 ds)) = p_reads p0 \<and>
         writes (snd (known_disk hl lf p0 ds)) = p_writes p0 \<and>
         last_io (snd (known_disk hl lf p0 ds)) = p_now p0 \<and>
         \<not> spun_down (snd (known_disk hl lf p0 ds))"
proof -
  have quiet: "spun_down ds \<Longrightarrow> run_known hl lf pre ds = ([], ds)"
    using assms(2) by (intro run_known_quiet) auto
  have ch: "known_disk hl lf p0 ds =
     ((if spun_down ds \<and> hl then log_spinup lf ds (p_log p0) else []),
      ds\<lparr>spinup := (if spun_down ds then p_now p0 else spinup ds),
         reads := p_reads p0, writes := p_writes p0, last_io := p_now p0, spun_down := False\<rparr>)"
    using assms(1) by (rule known_disk_changed)
  show ?thesis
    using quiet ch by (auto simp: run_known_append log_spinup_lines)
qed

theorem spinup_logged_and_cleared_witness:
  "run_known True ''/var/log/hd-idle.log'' [failing 1520, woke lg_late] ds_down =
     ([Log_line ''/var/log/hd-idle.log'' 1551 ''sdb'' 500 51, Log_pause, Sync],
      ds_down\<lparr>spinup := 1550, reads := 6, writes := 7, last_io := 1550, spun_down := False\<rparr>)"
  using spinup_logged_and_cleared [of "woke lg_late" ds_down "[failing 1520]" True
      "''/var/log/hd-idle.log''"]
  by (simp add: ds_down_def woke_def failing_def lg_late_def log_spinup_def)

text \<open>
  The claim as stated fails: here the clock moves from 1550 to 1551 between the poll's
  reading and the logger's, so the line says 51 seconds stopped where \<open>now - spindown\<close>
  is 50; and when the log file cannot be opened no line is written although logging is
  enabled.
\<close>

theorem spinup_log_counterexample:
  "filter is_log_line (fst (known_disk True ''/var/log/hd-idle.log'' (woke lg_late) ds_down)) =
     [Log_line ''/var/log/hd-idle.log'' 1551 ''sdb'' 500 51] \<and>
   p_now (woke lg_late) - spindown ds_down = 50 \<and>
   filter is_log_line (fst (known_disk True ''/var/log/hd-idle.log'' (woke lg_closed) ds_down)) = []"
  by (simp add: known_disk_def log_spinup_def is_log_line_def ds_down_def woke_def
      lg_late_def lg_closed_def)

section \<open>A stop command that fails\<close>

lemma spindown_disk_reports:
  "sg_failed r \<Longrightarrow> filter is_report (spindown_disk nm r) \<noteq> []"
  by (cases r) (auto simp: sg_failed_def is_report_def)

lemma probe_known:
  assumes "snd (is_scsi_disk (p_name p) (p_stat p))"
    and "get_diskstats dss (p_name p) = Some i"
  shows "probe c p dss =
     (fst (known_disk (have_logfile c) (logfile c) p (dss ! i)),
      dss[i := snd (known_disk (have_logfile c) (logfile c) p (dss ! i))], None)"
  using assms by (auto simp: probe_def is_scsi_disk_def split: option.splits prod.splits)

lemma get_diskstats_update:
  "k < length dss \<Longrightarrow> name x = name (dss ! k) \<Longrightarrow>
   get_diskstats (dss[k := x]) nm = get_diskstats dss nm"
proof (induction dss arbitrary: k)
  case Nil
  then show ?case by simp
next
  case (Cons d ds)
  then show ?case by (cases k) auto
qed

lemma probe_other:
  assumes "get_diskstats dss nm = Some i" and "p_name p \<noteq> nm"
    and "probe c p dss = (ev, dss', r)"
  shows "\<exists>j. get_diskstats dss' nm = Some j \<and> dss' ! j = dss ! i"
proof (cases "snd (is_scsi_disk (p_name p) (p_stat p))")
  case False
  then have "dss' = dss"
    using assms(3) by (auto simp: probe_def split: prod.splits)
  then show ?thesis using assms(1) by simp
next
  case scsi: True
  show ?thesis
  proof (cases "get_diskstats dss (p_name p)")
    case None
    then have "dss' = dss \<or> dss' = new_disk (it_root c) p # dss"
      using assms(3) scsi by (auto simp: probe_def split: prod.splits if_splits)
    then show ?thesis
      using assms(1,2) by (auto simp: new_disk_def)
  next
    case (Some k)
    then have k: "k < length dss" "name (dss ! k) = p_name p"
      using get_diskstats_Some by blast+
    let ?x = "snd (known_disk (have_logfile c) (logfile c) p (dss ! k))"
    have dss': "dss' = dss[k := ?x]"
      using assms(3) scsi Some by (auto simp: probe_def split: prod.splits)
    have "name (dss ! i) = nm"
      using assms(1) get_diskstats_Some by blast
    then have "k \<noteq> i"
      using k(2) assms(2) by auto
    then have "dss' ! i = dss ! i"
      unfolding dss' by simp
    moreover have "get_diskstats dss' nm = Some i"
      unfolding dss' using get_diskstats_update [OF k(1), of ?x nm] assms(1)
      by (simp add: known_disk_name)
    ultimately show ?thesis by blast
  qed
qed

text \<open>
  C4, as amended. A line brings a known, running disk whose idle time has run out, and
  the stop command fails (the device cannot be opened, the ioctl fails, or the status is
  not 0). Then \<^verbatim>\<open>spindown_disk\<close> writes a report to the error stream, the line is
  processed without leaving the loop, the remaining lines of the snapshot are processed,
  and the record is marked exactly as after a successful command: \<open>spindown\<close> is \<open>now\<close>
  and \<open>spun_down\<close> is true.
\<close>

theorem failed_spindown_marks_disk:
  assumes "sg_failed (p_sg p)"
    and "snd (is_scsi_disk (p_name p) (p_stat p))"
    and "get_diskstats dss (p_name p) = Some i"
    and "reads (dss ! i) = p_reads p" and "writes (dss ! i) = p_writes p"
    and "\<not> spun_down (dss ! i)" and "idle_time (dss ! i) \<noteq> 0"
    and "idle_time (dss ! i) \<le> p_now p - last_io (dss ! i)"
  shows "filter is_report (spindown_disk (p_name p) (p_sg p)) \<noteq> [] \<and>
         probe c p dss =
           ([Spindown (p_name p) (spindown_disk (p_name p) (p_sg p))],
            dss[i := (dss ! i)\<lparr>spindown := p_now p, spun_down := True\<rparr>], None) \<and>
         read_stats c (Some p # ls) dss =
           (case read_stats c ls (dss[i := (dss ! i)\<lparr>spindown := p_now p, spun_down := True\<rparr>]) of
              (ev, r) \<Rightarrow> (Spindown (p_name p) (spindown_disk (p_name p) (p_sg p)) # ev, r))"
proof -
  have nm: "name (dss ! i) = p_name p"
    using assms(3) get_diskstats_Some by blast
  have k: "known_disk (have_logfile c) (logfile c) p (dss ! i) =
      ([Spindown (p_name p) (spindown_disk (p_name p) (p_sg p))],
       (dss ! i)\<lparr>spindown := p_now p, spun_down := True\<rparr>)"
    using known_disk_fires [of p "dss ! i" "have_logfile c" "logfile c"] assms(4-8) nm by simp
  have pr: "probe c p dss =
      ([Spindown (p_name p) (spindown_disk (p_name p) (p_sg p))],
       dss[i := (dss ! i)\<lparr>spindown := p_now p, spun_down := True\<rparr>], None)"
    using probe_known [OF assms(2,3), of c] k by simp
  show ?thesis
    using spindown_disk_reports [OF assms(1)] pr by (simp split: prod.splits)
qed

theorem failed_spindown_marks_disk_witness:
  "read_stats config0 [Some (failing 1030), Some (failing 1040)] [ds30] =
     ([Spindown ''sdb'' [Open_dev ''/dev/sdb'', Perror ''/dev/sdb'']],
      [ds30\<lparr>spindown := 1030, spun_down := True\<rparr>], None)"
proof -
  have "read_stats config0 [Some (failing 1040)] [ds30\<lparr>spindown := 1030, spun_down := True\<rparr>] =
      ([], [ds30\<lparr>spindown := 1030, spun_down := True\<rparr>], None)"
    by (simp add: probe_def is_scsi_disk_def known_disk_def failing_def ds30_def)
  then show ?thesis
    using failed_spindown_marks_disk [of "failing 1030" "[ds30]" 0 config0 "[Some (failing 1040)]"]
    by (simp add: failing_def ds30_def sg_failed_def is_scsi_disk_def dev_name_def)
qed

text \<open>
  The claim as stated fails: the device cannot be opened, and the record, running before,
  is marked as spun down.
\<close>

theorem failed_spindown_counterexample:
  "sg_failed (p_sg (failing 1030)) \<and> \<not> spun_down ds30 \<and>
   probe config0 (failing 1030) [ds30] =
     ([Spindown ''sdb'' [Open_dev ''/dev/sdb'', Perror ''/dev/sdb'']],
      [ds30\<lparr>spindown := 1030, spun_down := True\<rparr>], None)"
  by (simp add: probe_def is_scsi_disk_def known_disk_def failing_def ds30_def sg_failed_def
      dev_name_def)

section \<open>Allocation failures\<close>

text \<open>
  C5. When the first \<^verbatim>\<open>malloc\<close> of \<^verbatim>\<open>main\<close> (line 194) fails, the process ends
  with status 1, whatever the options: not with the status 2 of the three other
  allocation sites (the \<^verbatim>\<open>malloc\<close> of option \<^verbatim>\<open>-a\<close>, the \<^verbatim>\<open>strdup\<close> of
  \<^verbatim>\<open>disk_name\<close>, the \<^verbatim>\<open>malloc\<close> for a new disk).
\<close>

theorem first_malloc_failure_exits_1:
  "main False opts ticks = ([Stderr ''out of memory''], Some 1) \<and>
   handle_opt (Opt_a path (a\<lparr>a_malloc := False\<rparr>)) c = ([Stderr ''out of memory''], Inl 2) \<and>
   disk_name (CHR ''/'' # path) (Some buf) False = ([Stderr ''out of memory''], Inl 2) \<and>
   probe c (p\<lparr>p_stat := Some (8, 0), p_malloc := False\<rparr>) [] =
     ([Stderr ''out of memory''], [], Some 2)"
  by (simp add: main_def disk_name_def probe_def is_scsi_disk_def)

section \<open>The one-shot command\<close>

lemma getopt_loop_append:
  "getopt_loop (xs @ ys) c =
     (case getopt_loop xs c of
        (ev, Inl rc) \<Rightarrow> (ev, Inl rc)
      | (ev, Inr c') \<Rightarrow> (case getopt_loop ys c' of (ev', r) \<Rightarrow> (ev @ ev', r)))"
  by (induction xs arbitrary: c) (auto split: prod.splits sum.splits)

text \<open>
  C10. When option processing reaches \<^verbatim>\<open>-t\<close> (the first allocation succeeded and the
  options before it did not end the process), \<^verbatim>\<open>main\<close> calls \<^verbatim>\<open>spindown_disk\<close>
  and returns 0, whatever the device answers and whatever follows on the command line.
\<close>

theorem one_shot_exits_0:
  assumes "getopt_loop pre config0 = (ev, Inr c)"
  shows "main True (pre @ Opt_t nm sg # rest) ticks =
           (ev @ [Spindown nm (spindown_disk nm sg)], Some 0)"
  using assms by (simp add: main_def getopt_loop_append)

theorem one_shot_exits_0_witness:
  "main True [Opt_d, Opt_t ''sdb'' Open_fails, Opt_unknown CHR ''x''] [snapshot 1000] =
     ([Spindown ''sdb'' [Open_dev ''/dev/sdb'', Perror ''/dev/sdb'']], Some 0)"
  using one_shot_exits_0 [of "[Opt_d]" "[]" "config0\<lparr>debug := 1\<rparr>" "''sdb''" Open_fails
      "[Opt_unknown CHR ''x'']" "[snapshot 1000]"]
  by (simp add: config0_def dev_name_def)

section \<open>The poll interval\<close>

lemma finite_nonzero_timeouts: "finite (nonzero_timeouts its)"
  by (simp add: nonzero_timeouts_def)

lemma nonzero_timeouts_Cons:
  "nonzero_timeouts (x # xs) =
     (if it_idle_time x \<noteq> 0 then insert (it_idle_time x) (nonzero_timeouts xs)
      else nonzero_timeouts xs)"
  by (auto simp: nonzero_timeouts_def)

lemma Min_insert_insert:
  assumes "finite S"
  shows "Min (insert (m::int) (insert t S)) = Min (insert (min t m) S)"
proof (cases "S = {}")
  case True
  then show ?thesis by (simp add: min.commute)
next
  case False
  then show ?thesis using assms by (simp add: min.commute min.left_commute min.assoc)
qed

lemma min_idle_time_Min:
  "min_idle_time its m = Min (insert m (nonzero_timeouts its))"
proof (induction its arbitrary: m)
  case Nil
  then show ?case by (simp add: nonzero_timeouts_def)
next
  case (Cons x xs)
  show ?case
  proof (cases "it_idle_time x = 0")
    case True
    then show ?thesis using Cons.IH by (simp add: nonzero_timeouts_Cons)
  next
    case False
    have "(if it_idle_time x < m then it_idle_time x else m) = min (it_idle_time x) m"
      by (simp add: min_def)
    then show ?thesis
      using False Cons.IH Min_insert_insert [OF finite_nonzero_timeouts]
      by (simp add: nonzero_timeouts_Cons)
  qed
qed

lemma c_div_nonneg: "0 \<le> a \<Longrightarrow> c_div a 10 = a div 10"
  by (cases "a = 0") (simp_all add: c_div_def)

lemma sleep_time_nonneg:
  assumes "\<forall>x\<in>set its. 0 \<le> it_idle_time x \<and> it_idle_time x \<le> INT_MAX"
  shows "sleep_time its =
     max 1 ((if nonzero_timeouts its = {} then INT_MAX else Min (nonzero_timeouts its)) div 10)"
proof -
  let ?S = "nonzero_timeouts its"
  let ?m = "if ?S = {} then INT_MAX else Min ?S"
  have fin: "finite ?S" by (rule finite_nonzero_timeouts)
  have bounds: "\<forall>t\<in>?S. 0 \<le> t \<and> t \<le> INT_MAX"
    using assms by (auto simp: nonzero_timeouts_def)
  have m: "min_idle_time its INT_MAX = ?m"
  proof (cases "?S = {}")
    case True
    then show ?thesis by (simp add: min_idle_time_Min)
  next
    case False
    then have "Min ?S \<le> INT_MAX" using bounds fin Min_in by blast
    moreover have "Min (insert INT_MAX ?S) = min INT_MAX (Min ?S)"
      using fin False by (rule Min_insert)
    ultimately show ?thesis using False by (simp add: min_idle_time_Min min_def)
  qed
  have "0 \<le> ?m"
  proof (cases "?S = {}")
    case True
    then show ?thesis by (simp add: INT_MAX_def)
  next
    case False
    then show ?thesis using bounds fin Min_in by auto
  qed
  then have "c_div ?m 10 = ?m div 10" and "0 \<le> ?m div 10"
    by (simp_all add: c_div_nonneg)
  then show ?thesis
    unfolding sleep_time_def m by (simp add: Let_def max_def)
qed

lemma known_disk_no_sleep:
  "known_disk hl lf p ds = (ev, ds') \<Longrightarrow> \<forall>e\<in>set ev. \<not> is_sleep e"
  by (auto simp: known_disk_def log_spinup_def is_sleep_def split: if_splits)

lemma probe_no_sleep: "probe c p dss = (ev, r) \<Longrightarrow> \<forall>e\<in>set ev. \<not> is_sleep e"
proof (cases "get_diskstats dss (p_name p)")
  case None
  then show "probe c p dss = (ev, r) \<Longrightarrow> ?thesis"
    by (auto simp: probe_def is_scsi_disk_def is_sleep_def
             split: option.splits if_splits prod.splits bool.splits)
next
  case (Some i)
  obtain ev1 ds1 where k: "known_disk (have_logfile c) (logfile c) p (dss ! i) = (ev1, ds1)"
    by (cases "known_disk (have_logfile c) (logfile c) p (dss ! i)") auto
  show "probe c p dss = (ev, r) \<Longrightarrow> ?thesis"
    using Some k known_disk_no_sleep [OF k]
    by (auto simp: probe_def is_scsi_disk_def is_sleep_def
             split: option.splits if_splits prod.splits bool.splits)
qed

lemma read_stats_no_sleep:
  "read_stats c ls dss = (ev, r) \<Longrightarrow> \<forall>e\<in>set ev. \<not> is_sleep e"
proof (induction ls arbitrary: dss ev r)
  case Nil
  then show ?case by simp
next
  case (Cons l ls)
  show ?case
  proof (cases l)
    case None
    then show ?thesis using Cons by simp
  next
    case (Some p)
    obtain ev1 dss1 r1 where p: "probe c p dss = (ev1, dss1, r1)"
      by (cases "probe c p dss") auto
    obtain ev2 r2 where rest: "read_stats c ls dss1 = (ev2, r2)"
      by (cases "read_stats c ls dss1") auto
    show ?thesis
      using Cons.prems Some p rest probe_no_sleep [OF p] Cons.IH [OF rest]
      by (auto split: option.splits)
  qed
qed

lemma main_loop_sleep:
  "main_loop c slp ts dss = (ev, r) \<Longrightarrow> \<forall>e\<in>set ev. is_sleep e \<longrightarrow> e = Sleep slp"
proof (induction ts arbitrary: dss ev r)
  case Nil
  then show ?case by simp
next
  case (Cons t ts)
  show ?case
  proof (cases "t_brk1 t \<or> t_stat t = None")
    case True
    then show ?thesis using Cons.prems by (auto simp: is_sleep_def split: if_splits)
  next
    case False
    then obtain ls where ls: "t_stat t = Some ls" and b1: "\<not> t_brk1 t" by auto
    obtain ev1 dss1 r1 where rd: "read_stats c ls dss = (ev1, dss1, r1)"
      by (cases "read_stats c ls dss") auto
    obtain ev2 r2 where rest: "main_loop c slp ts dss1 = (ev2, r2)"
      by (cases "main_loop c slp ts dss1") auto
    show ?thesis
      using Cons.prems ls b1 rd rest read_stats_no_sleep [OF rd] Cons.IH [OF rest]
      by (auto simp: is_sleep_def split: option.splits if_splits)
  qed
qed

lemma handle_opt_no_sleep:
  "handle_opt x c = (ev, r) \<Longrightarrow> \<forall>e\<in>set ev. \<not> is_sleep e"
  by (cases x) (auto simp: disk_name_def is_sleep_def Let_def
                     split: if_splits option.splits prod.splits sum.splits)

lemma getopt_loop_no_sleep:
  "getopt_loop opts c = (ev, r) \<Longrightarrow> \<forall>e\<in>set ev. \<not> is_sleep e"
proof (induction opts arbitrary: c ev r)
  case Nil
  then show ?case by simp
next
  case (Cons x xs)
  obtain ev1 r1 where h: "handle_opt x c = (ev1, r1)"
    by (cases "handle_opt x c") auto
  show ?case
  proof (cases r1)
    case (Inl rc)
    then show ?thesis using Cons.prems h handle_opt_no_sleep [OF h] by auto
  next
    case (Inr c1)
    obtain ev2 r2 where rest: "getopt_loop xs c1 = (ev2, r2)"
      by (cases "getopt_loop xs c1") auto
    show ?thesis
      using Cons.prems h Inr rest handle_opt_no_sleep [OF h] Cons.IH [OF rest] by auto
  qed
qed

text \<open>
  C8, as amended. When every idle time of the list is between 0 and \<^verbatim>\<open>INT_MAX\<close>,
  \<^verbatim>\<open>sleep_time\<close> is \<open>max 1 (m div 10)\<close>, where \<open>m\<close> is the least nonzero idle
  time, or \<^verbatim>\<open>INT_MAX\<close> when all idle times are 0. It is computed from the list that
  option processing leaves, and every \<^verbatim>\<open>sleep\<close> of the poll loop is given this value.
\<close>

theorem poll_interval:
  "((\<forall>x\<in>set its. 0 \<le> it_idle_time x \<and> it_idle_time x \<le> INT_MAX) \<longrightarrow>
      sleep_time its =
        max 1 ((if nonzero_timeouts its = {} then INT_MAX else Min (nonzero_timeouts its)) div 10)) \<and>
   (getopt_loop opts config0 = (ev0, Inr c) \<longrightarrow>
      (\<forall>e\<in>set (fst (main True opts ticks)). is_sleep e \<longrightarrow> e = Sleep (sleep_time (it_root c))))"
proof (intro conjI impI ballI)
  assume "\<forall>x\<in>set its. 0 \<le> it_idle_time x \<and> it_idle_time x \<le> INT_MAX"
  then show "sleep_time its =
      max 1 ((if nonzero_timeouts its = {} then INT_MAX else Min (nonzero_timeouts its)) div 10)"
    by (rule sleep_time_nonneg)
next
  fix e
  assume g: "getopt_loop opts config0 = (ev0, Inr c)"
    and e: "e \<in> set (fst (main True opts ticks))" and s: "is_sleep e"
  obtain ev1 r1 where ml: "main_loop c (sleep_time (it_root c)) ticks [] = (ev1, r1)"
    by (cases "main_loop c (sleep_time (it_root c)) ticks []") auto
  have "fst (main True opts ticks) = ev0 @ ev1"
    using g ml by (simp add: main_def split: prod.splits)
  then show "e = Sleep (sleep_time (it_root c))"
    using e s getopt_loop_no_sleep [OF g] main_loop_sleep [OF ml] by auto
qed

theorem poll_interval_witness:
  "sleep_time two_rules = 3 \<and> Min (nonzero_timeouts two_rules) = 30 \<and>
   filter is_sleep
     (fst (main True [Opt_a ''sdb'' plain, Opt_i 30] [snapshot 1000, snapshot 1003])) =
     [Sleep 3, Sleep 3]"
proof -
  let ?c = "config0\<lparr>it_cur := \<lparr>it_name = Some ''sdb'', it_idle_time = 30, name_allocd = False\<rparr>,
                   it_rest := [it_cur config0]\<rparr>"
  have g: "getopt_loop [Opt_a ''sdb'' plain, Opt_i 30] config0 = ([], Inr ?c)"
    by (simp add: plain_def disk_name_def DEFAULT_IDLE_TIME_def config0_def)
  have r: "it_root ?c = two_rules"
    by (simp add: it_root_def two_rules_def config0_def DEFAULT_IDLE_TIME_def)
  have n: "nonzero_timeouts two_rules = {30, 600}"
    by (auto simp: nonzero_timeouts_def two_rules_def)
  have b: "\<forall>x\<in>set two_rules. 0 \<le> it_idle_time x \<and> it_idle_time x \<le> INT_MAX"
    by (simp add: two_rules_def INT_MAX_def)
  have s: "sleep_time two_rules = 3"
    using poll_interval [of two_rules "[Opt_a ''sdb'' plain, Opt_i 30]" "[]" ?c
        "[snapshot 1000, snapshot 1003]"] b n
    by simp
  have "fst (main True [Opt_a ''sdb'' plain, Opt_i 30] [snapshot 1000, snapshot 1003]) =
      [Fopen_stat, Fclose_stat, Sleep 3, Fopen_stat, Fclose_stat, Sleep 3]"
    using g r s
    by (simp add: main_def snapshot_def at30_def probe_def is_scsi_disk_def new_disk_def
        known_disk_def two_rules_def)
  then show ?thesis
    using s n by (simp add: is_sleep_def)
qed

text \<open>
  The claim as stated fails: \<^verbatim>\<open>hd-idle -i -100\<close> makes the least nonzero idle time
  -100, and \<^verbatim>\<open>sleep_time\<close> is -10 where the claim's formula gives 1.
\<close>

theorem poll_interval_counterexample:
  "fst (main True [Opt_i (- 100)] [snapshot 1000]) = [Fopen_stat, Fclose_stat, Sleep (- 10)] \<and>
   sleep_time (only_default (- 100)) = - 10 \<and>
   nonzero_timeouts (only_default (- 100)) = {- 100} \<and>
   max 1 (c_div (- 100) 10) = 1"
  by (auto simp: main_def sleep_time_def c_div_def INT_MAX_def it_root_def config0_def
      snapshot_def at30_def probe_def is_scsi_disk_def only_default_def nonzero_timeouts_def)

section \<open>The idle-time list and its lookup\<close>

lemma handle_opt_supplied:
  assumes "handle_opt x c = (ev, Inr c')"
  shows "supplied (x # xs) (rev (it_root c)) = supplied xs (rev (it_root c'))"
proof (cases x)
  case (Opt_a path a)
  then show ?thesis
    using assms
    by (auto simp: it_root_def named_rule_def split: if_splits prod.splits sum.splits)
next
  case (Opt_i v)
  then show ?thesis
    using assms by (auto simp: it_root_def)
qed (use assms in \<open>auto simp: it_root_def\<close>)

lemma getopt_loop_supplied:
  "getopt_loop opts c = (ev, Inr c') \<Longrightarrow> it_root c' = rev (supplied opts (rev (it_root c)))"
proof (induction opts arbitrary: c ev)
  case Nil
  then show ?case by simp
next
  case (Cons x xs)
  obtain ev1 r1 where h: "handle_opt x c = (ev1, r1)"
    by (cases "handle_opt x c") auto
  with Cons.prems obtain c1 where r1: "r1 = Inr c1"
    by (cases r1) auto
  obtain ev2 r2 where rest: "getopt_loop xs c1 = (ev2, r2)"
    by (cases "getopt_loop xs c1") auto
  have r2: "r2 = Inr c'"
    using Cons.prems h r1 rest by auto
  have "it_root c' = rev (supplied xs (rev (it_root c1)))"
    using Cons.IH rest r2 by blast
  then show ?case
    using handle_opt_supplied [of x c ev1 c1 xs] h r1 by simp
qed

lemma handle_opt_default_last:
  assumes "handle_opt x c = (ev, Inr c')" and "default_last (it_root c)"
  shows "default_last (it_root c')"
proof (cases x)
  case (Opt_a path a)
  then show ?thesis
    using assms
    by (auto simp: it_root_def default_last_def split: if_splits prod.splits sum.splits)
next
  case (Opt_i v)
  then show ?thesis
    using assms by (auto simp: it_root_def default_last_def split: if_splits)
qed (use assms in \<open>auto simp: it_root_def default_last_def\<close>)

lemma getopt_loop_default_last:
  "getopt_loop opts c = (ev, Inr c') \<Longrightarrow> default_last (it_root c) \<Longrightarrow> default_last (it_root c')"
proof (induction opts arbitrary: c ev)
  case Nil
  then show ?case by simp
next
  case (Cons x xs)
  obtain ev1 r1 where h: "handle_opt x c = (ev1, r1)"
    by (cases "handle_opt x c") auto
  with Cons.prems obtain c1 where r1: "r1 = Inr c1"
    by (cases r1) auto
  obtain ev2 r2 where rest: "getopt_loop xs c1 = (ev2, r2)"
    by (cases "getopt_loop xs c1") auto
  have r2: "r2 = Inr c'"
    using Cons.prems h r1 rest by auto
  have "default_last (it_root c1)"
    using handle_opt_default_last h r1 Cons.prems(2) by blast
  then show ?case
    using Cons.IH rest r2 by blast
qed

lemma find_idle_time_default_last:
  "default_last its \<Longrightarrow>
   find_idle_time its nm =
     Some (case find (\<lambda>r. it_name r = Some nm) (butlast its) of
             Some r \<Rightarrow> it_idle_time r
           | None \<Rightarrow> it_idle_time (last its))"
proof (induction its)
  case Nil
  then show ?case by (simp add: default_last_def)
next
  case (Cons r rs)
  show ?case
  proof (cases "rs = []")
    case True
    then show ?thesis using Cons.prems by (simp add: default_last_def)
  next
    case False
    then have "default_last rs"
      using Cons.prems by (simp add: default_last_def)
    then have ih: "find_idle_time rs nm =
        Some (case find (\<lambda>r. it_name r = Some nm) (butlast rs) of
                Some r \<Rightarrow> it_idle_time r
              | None \<Rightarrow> it_idle_time (last rs))"
      by (rule Cons.IH)
    have l: "last (r # rs) = last rs" and b: "butlast (r # rs) = r # butlast rs"
      using False by simp_all
    have "it_name r \<noteq> None"
      using Cons.prems False by (simp add: default_last_def)
    then show ?thesis
      unfolding l b using ih by auto
  qed
qed

text \<open>
  C2. Whenever option processing ends without ending the process, the idle-time list is
  the list of the rules in reverse order of supply (a rule supplied later stands before a
  rule supplied earlier); its last entry is the pattern-less default and no other entry is
  pattern-less; and for every disk name the lookup of lines 338-343 returns a result: the
  idle time of the first entry whose name equals the disk name, or that of the default
  when there is none. A new disk record gets that idle time.
\<close>

theorem resolve_first_match:
  assumes "getopt_loop opts config0 = (ev, Inr c)"
  shows "it_root c = rev (rules_supplied opts) \<and>
         it_name (last (it_root c)) = None \<and>
         (\<forall>r\<in>set (butlast (it_root c)). it_name r \<noteq> None) \<and>
         find_idle_time (it_root c) nm =
           Some (case find (\<lambda>r. it_name r = Some nm) (butlast (it_root c)) of
                   Some r \<Rightarrow> it_idle_time r
                 | None \<Rightarrow> it_idle_time (last (it_root c))) \<and>
         idle_time (new_disk (it_root c) p) =
           (case find (\<lambda>r. it_name r = Some (p_name p)) (butlast (it_root c)) of
              Some r \<Rightarrow> it_idle_time r
            | None \<Rightarrow> it_idle_time (last (it_root c)))"
proof -
  have d0: "default_last (it_root config0)"
    by (simp add: default_last_def it_root_def config0_def)
  have dl: "default_last (it_root c)"
    using getopt_loop_default_last [OF assms d0] .
  have "rev (it_root config0) = [default_rule]"
    by (simp add: it_root_def config0_def default_rule_def)
  then have "it_root c = rev (rules_supplied opts)"
    using getopt_loop_supplied [OF assms] by (simp add: rules_supplied_def)
  then show ?thesis
    using dl find_idle_time_default_last [OF dl]
    by (simp add: default_last_def new_disk_def)
qed

theorem resolve_first_match_witness:
  "find_idle_time (it_root sdb_twice_config) ''sdb'' = Some 60 \<and>
   find_idle_time (it_root sdb_twice_config) ''sdc'' = Some 900 \<and>
   it_root sdb_twice_config = rev (rules_supplied sdb_twice)"
proof -
  have g: "getopt_loop sdb_twice config0 = ([], Inr sdb_twice_config)"
    by (simp add: sdb_twice_def sdb_twice_config_def plain_def disk_name_def isdigit_def
        config0_def DEFAULT_IDLE_TIME_def)
  note sdb = resolve_first_match [OF g, of "''sdb''" "at30 0"]
  note sdc = resolve_first_match [OF g, of "''sdc''" "at30 0"]
  have r: "it_root sdb_twice_config = rev (rules_supplied sdb_twice)"
    using sdb by (rule conjunct1)
  have "find_idle_time (it_root sdb_twice_config) ''sdb'' =
      Some (case find (\<lambda>r. it_name r = Some ''sdb'') (butlast (it_root sdb_twice_config)) of
              Some r \<Rightarrow> it_idle_time r
            | None \<Rightarrow> it_idle_time (last (it_root sdb_twice_config)))"
    using sdb by (elim conjE)
  then have b: "find_idle_time (it_root sdb_twice_config) ''sdb'' = Some 60"
    by (simp add: sdb_twice_config_def it_root_def)
  have "find_idle_time (it_root sdb_twice_config) ''sdc'' =
      Some (case find (\<lambda>r. it_name r = Some ''sdc'') (butlast (it_root sdb_twice_config)) of
              Some r \<Rightarrow> it_idle_time r
            | None \<Rightarrow> it_idle_time (last (it_root sdb_twice_config)))"
    using sdc by (elim conjE)
  then have c: "find_idle_time (it_root sdb_twice_config) ''sdc'' = Some 900"
    by (simp add: sdb_twice_config_def it_root_def)
  show ?thesis
    using b c r by (intro conjI)
qed

section \<open>How the poll loop ends\<close>

lemma is_sleep_simps:
  "is_sleep (Sleep n)" "\<not> is_sleep Fopen_stat" "\<not> is_sleep Fclose_stat"
  "\<not> is_sleep (Stderr m)"
  by (simp_all add: is_sleep_def)

lemma foldl_handle_step_inner:
  "\<forall>e\<in>set ev. inner e \<Longrightarrow> foldl handle_step b ev = b"
  by (induction ev arbitrary: b) (auto simp: handle_step_def inner_def)

lemma known_disk_inner:
  "known_disk hl lf p ds = (ev, ds') \<Longrightarrow> \<forall>e\<in>set ev. inner e"
  by (auto simp: known_disk_def log_spinup_def inner_def is_sleep_def split: if_splits)

lemma probe_inner:
  assumes "probe c p dss = (ev, dss', r)"
  shows "(\<forall>e\<in>set ev. inner e) \<and> (r = None \<or> r = Some 2 \<and> ev \<noteq> [] \<and> last ev = Stderr ''out of memory'')"
proof (cases "get_diskstats dss (p_name p)")
  case None
  then show ?thesis
    using assms
    by (auto simp: probe_def is_scsi_disk_def inner_def is_sleep_def
             split: option.splits if_splits prod.splits bool.splits)
next
  case (Some i)
  obtain ev1 ds1 where k: "known_disk (have_logfile c) (logfile c) p (dss ! i) = (ev1, ds1)"
    by (cases "known_disk (have_logfile c) (logfile c) p (dss ! i)") auto
  show ?thesis
    using assms Some k known_disk_inner [OF k]
    by (auto simp: probe_def is_scsi_disk_def inner_def is_sleep_def
             split: option.splits if_splits prod.splits bool.splits)
qed

lemma read_stats_inner:
  "read_stats c ls dss = (ev, dss', r) \<Longrightarrow>
   (\<forall>e\<in>set ev. inner e) \<and>
   (r = None \<or> r = Some 2 \<and> ev \<noteq> [] \<and> last ev = Stderr ''out of memory'')"
proof (induction ls arbitrary: dss ev dss' r)
  case Nil
  then show ?case by simp
next
  case (Cons l ls)
  show ?case
  proof (cases l)
    case None
    then show ?thesis using Cons by simp
  next
    case (Some p)
    obtain ev1 dss1 r1 where p: "probe c p dss = (ev1, dss1, r1)"
      by (cases "probe c p dss") auto
    obtain ev2 dss2 r2 where rest: "read_stats c ls dss1 = (ev2, dss2, r2)"
      by (cases "read_stats c ls dss1") auto
    show ?thesis
      using Cons.prems Some p rest probe_inner [OF p] Cons.IH [OF rest]
      by (auto split: option.splits)
  qed
qed

lemma main_loop_exit:
  "main_loop c slp ts dss = (ev, dss', r) \<Longrightarrow>
   (r = None \<or> r = Some 0 \<or> r = Some 2) \<and>
   (r = Some 0 \<longrightarrow>
      takeWhile unflagged ts \<noteq> ts \<and>
      length (filter is_sleep ev) = length (takeWhile unflagged ts) \<and> \<not> stat_open ev) \<and>
   (r = None \<longrightarrow>
      takeWhile unflagged ts = ts \<and> length (filter is_sleep ev) = length ts \<and> \<not> stat_open ev) \<and>
   (r = Some 2 \<longrightarrow>
      ev \<noteq> [] \<and> is_fatal_report (last ev) \<and>
      length (filter is_sleep ev) \<le> length (takeWhile unflagged ts))"
proof (induction ts arbitrary: dss ev dss' r)
  case Nil
  then show ?case by (simp add: stat_open_def)
next
  case (Cons t ts)
  show ?case
  proof (cases "t_brk1 t \<or> t_stat t = None")
    case True
    then show ?thesis
      using Cons.prems
      by (auto simp: stat_open_def unflagged_def is_fatal_report_def is_sleep_simps
               split: if_splits)
  next
    case False
    then obtain ls where ls: "t_stat t = Some ls" and b1: "\<not> t_brk1 t" by auto
    obtain ev1 dss1 r1 where rd: "read_stats c ls dss = (ev1, dss1, r1)"
      by (cases "read_stats c ls dss") auto
    note inn = read_stats_inner [OF rd]
    have ns: "filter is_sleep ev1 = []"
      using inn by (auto simp: inner_def filter_empty_conv)
    have fo: "\<And>b. foldl handle_step b ev1 = b"
      using inn foldl_handle_step_inner by blast
    show ?thesis
    proof (cases r1)
      case (Some rc)
      then have "ev = Fopen_stat # ev1" "r = Some 2" "ev1 \<noteq> []"
        "last ev1 = Stderr ''out of memory''"
        using Cons.prems ls b1 rd inn by auto
      then show ?thesis
        using ns by (simp add: is_fatal_report_def is_sleep_simps)
    next
      case None
      show ?thesis
      proof (cases "t_brk2 t")
        case True
        then have "ev = Fopen_stat # ev1 @ [Fclose_stat]" "r = Some 0"
          using Cons.prems ls b1 rd None by auto
        then show ?thesis
          using ns fo True by (simp add: stat_open_def unflagged_def handle_step_def is_sleep_simps)
      next
        case False
        obtain ev2 dss2 r2 where rest: "main_loop c slp ts dss1 = (ev2, dss2, r2)"
          by (cases "main_loop c slp ts dss1") auto
        have ev: "ev = Fopen_stat # ev1 @ [Fclose_stat, Sleep slp] @ ev2" and r: "r = r2"
          using Cons.prems ls b1 rd None False rest by auto
        have u: "unflagged t"
          using b1 False by (simp add: unflagged_def)
        have so: "stat_open ev = stat_open ev2"
          unfolding ev stat_open_def by (simp add: fo handle_step_def is_sleep_simps)
        have sl: "length (filter is_sleep ev) = Suc (length (filter is_sleep ev2))"
          unfolding ev using ns by (simp add: is_sleep_simps)
        have la: "ev2 \<noteq> [] \<Longrightarrow> last ev = last ev2"
          unfolding ev by simp
        show ?thesis
          using Cons.IH [OF rest] u so sl la r ev by auto
      qed
    qed
  qed
qed

lemma main_loop_append:
  "main_loop c slp pre dss = (ev0, dss0, None) \<Longrightarrow>
   main_loop c slp (pre @ ts) dss =
     (case main_loop c slp ts dss0 of (ev1, r) \<Rightarrow> (ev0 @ ev1, r))"
proof (induction pre arbitrary: dss ev0)
  case Nil
  then show ?case by (simp split: prod.splits)
next
  case (Cons t pre)
  have b1: "\<not> t_brk1 t"
    using Cons.prems by (auto split: if_splits)
  then obtain ls where ls: "t_stat t = Some ls"
    using Cons.prems by (cases "t_stat t") auto
  obtain ev1 dss1 r1 where rd: "read_stats c ls dss = (ev1, dss1, r1)"
    by (cases "read_stats c ls dss") auto
  have r1: "r1 = None" and b2: "\<not> t_brk2 t"
    using Cons.prems b1 ls rd by (auto split: option.splits if_splits)
  obtain ev2 dss2 r2 where rest: "main_loop c slp pre dss1 = (ev2, dss2, r2)"
    by (cases "main_loop c slp pre dss1") auto
  have fin: "ev0 = Fopen_stat # ev1 @ [Fclose_stat, Sleep slp] @ ev2" "dss0 = dss2" "r2 = None"
    using Cons.prems b1 b2 ls rd r1 rest by auto
  have "main_loop c slp (pre @ ts) dss1 =
      (case main_loop c slp ts dss0 of (ev3, r) \<Rightarrow> (ev2 @ ev3, r))"
    using Cons.IH [of dss1 ev2] rest fin by simp
  then show ?case
    using b1 b2 ls rd r1 fin(1) by (simp split: prod.splits)
qed

lemma main_loop_decompose:
  "main_loop c slp ts dss = (ev, dss', Some rc) \<Longrightarrow>
   \<exists>pre t post ev0 dss0.
     ts = pre @ t # post \<and> main_loop c slp pre dss = (ev0, dss0, None) \<and>
     (t_brk1 t \<and> rc = 0 \<and> ev = ev0 \<and> dss' = dss0 \<or>
      \<not> t_brk1 t \<and> t_stat t = None \<and> rc = 2 \<and>
        ev = ev0 @ [Stderr ''/proc/diskstats''] \<and> dss' = dss0 \<or>
      (\<exists>ls ev1. \<not> t_brk1 t \<and> t_stat t = Some ls \<and>
         read_stats c ls dss0 = (ev1, dss', Some 2) \<and> rc = 2 \<and> ev = ev0 @ Fopen_stat # ev1) \<or>
      (\<exists>ls ev1. \<not> t_brk1 t \<and> t_stat t = Some ls \<and>
         read_stats c ls dss0 = (ev1, dss', None) \<and> t_brk2 t \<and> rc = 0 \<and>
         ev = ev0 @ Fopen_stat # ev1 @ [Fclose_stat]))"
proof (induction ts arbitrary: dss ev)
  case Nil
  then show ?case by simp
next
  case (Cons t ts)
  let ?exit = "\<lambda>pre t post ev0 dss0.
     t # ts = pre @ t # post \<and> main_loop c slp pre dss = (ev0, dss0, None)"
  have start: "main_loop c slp [] dss = ([], dss, None)" by simp
  show ?case
  proof (cases "t_brk1 t")
    case True
    then have "rc = 0 \<and> ev = [] \<and> dss' = dss"
      using Cons.prems by simp
    then show ?thesis
      using True start by (intro exI [of _ "[]"] exI [of _ t] exI [of _ ts] exI [of _ dss]) simp
  next
    case b1: False
    show ?thesis
    proof (cases "t_stat t")
      case None
      then have "rc = 2 \<and> ev = [Stderr ''/proc/diskstats''] \<and> dss' = dss"
        using Cons.prems b1 by simp
      then show ?thesis
        using b1 None start
        by (intro exI [of _ "[]"] exI [of _ t] exI [of _ ts] exI [of _ dss]) simp
    next
      case (Some ls)
      obtain ev1 dss1 r1 where rd: "read_stats c ls dss = (ev1, dss1, r1)"
        by (cases "read_stats c ls dss") auto
      show ?thesis
      proof (cases r1)
        case fail: (Some rc1)
        then have "rc1 = 2"
          using read_stats_inner [OF rd] by simp
        then have "rc = 2 \<and> ev = Fopen_stat # ev1 \<and> dss' = dss1"
          using Cons.prems b1 Some rd fail by simp
        then show ?thesis
          using b1 Some rd fail \<open>rc1 = 2\<close> start
          by (intro exI [of _ "[]"] exI [of _ t] exI [of _ ts] exI [of _ dss]) simp
      next
        case ok: None
        show ?thesis
        proof (cases "t_brk2 t")
          case True
          then have "rc = 0 \<and> ev = Fopen_stat # ev1 @ [Fclose_stat] \<and> dss' = dss1"
            using Cons.prems b1 Some rd ok by simp
          then show ?thesis
            using b1 Some rd ok True start
            by (intro exI [of _ "[]"] exI [of _ t] exI [of _ ts] exI [of _ dss]) simp
        next
          case b2: False
          obtain ev2 dss2 r2 where rest: "main_loop c slp ts dss1 = (ev2, dss2, r2)"
            by (cases "main_loop c slp ts dss1") auto
          have fin: "ev = Fopen_stat # ev1 @ [Fclose_stat, Sleep slp] @ ev2" "dss' = dss2"
            "r2 = Some rc"
            using Cons.prems b1 b2 Some rd ok rest by auto
          from Cons.IH [OF rest [unfolded fin(3), folded fin(2)]]
          obtain pre u post ev0 dss0 where
            d: "ts = pre @ u # post" "main_loop c slp pre dss1 = (ev0, dss0, None)"
            and w: "t_brk1 u \<and> rc = 0 \<and> ev2 = ev0 \<and> dss' = dss0 \<or>
              \<not> t_brk1 u \<and> t_stat u = None \<and> rc = 2 \<and>
                ev2 = ev0 @ [Stderr ''/proc/diskstats''] \<and> dss' = dss0 \<or>
              (\<exists>ls ev1. \<not> t_brk1 u \<and> t_stat u = Some ls \<and>
                 read_stats c ls dss0 = (ev1, dss', Some 2) \<and> rc = 2 \<and>
                 ev2 = ev0 @ Fopen_stat # ev1) \<or>
              (\<exists>ls ev1. \<not> t_brk1 u \<and> t_stat u = Some ls \<and>
                 read_stats c ls dss0 = (ev1, dss', None) \<and> t_brk2 u \<and> rc = 0 \<and>
                 ev2 = ev0 @ Fopen_stat # ev1 @ [Fclose_stat])"
            by blast
          let ?ev0 = "Fopen_stat # ev1 @ [Fclose_stat, Sleep slp] @ ev0"
          have run: "main_loop c slp (t # pre) dss = (?ev0, dss0, None)"
            using b1 b2 Some rd ok d(2) by simp
          have dec: "t # ts = (t # pre) @ u # post"
            using d(1) by simp
          show ?thesis
            apply (rule exI [of _ "t # pre"])
            apply (rule exI [of _ u])
            apply (rule exI [of _ post])
            apply (rule exI [of _ ?ev0])
            apply (rule exI [of _ dss0])
            using run dec w fin(1) by auto
        qed
      qed
    qed
  qed
qed

lemma read_stats_append:
  "read_stats c l1 dss = (e1, d1, None) \<Longrightarrow>
   read_stats c (l1 @ l2) dss = (case read_stats c l2 d1 of (e2, r) \<Rightarrow> (e1 @ e2, r))"
proof (induction l1 arbitrary: dss e1)
  case Nil
  then show ?case by (simp split: prod.splits)
next
  case (Cons l l1)
  show ?case
  proof (cases l)
    case None
    then show ?thesis using Cons by simp
  next
    case (Some p)
    obtain ev1 dss1 r1 where p: "probe c p dss = (ev1, dss1, r1)"
      by (cases "probe c p dss") auto
    have r1: "r1 = None"
      using Cons.prems Some p by (cases r1) auto
    obtain ev2 dss2 r2 where rest: "read_stats c l1 dss1 = (ev2, dss2, r2)"
      by (cases "read_stats c l1 dss1") auto
    have fin: "e1 = ev1 @ ev2" "d1 = dss2" "r2 = None"
      using Cons.prems Some p r1 rest by auto
    have "read_stats c (l1 @ l2) dss1 =
        (case read_stats c l2 d1 of (e2, r) \<Rightarrow> (ev2 @ e2, r))"
      using Cons.IH [of dss1 ev2] rest fin by simp
    then show ?thesis
      using Some p r1 fin(1) by (simp split: prod.splits)
  qed
qed

lemma probe_no_memory:
  "snd (is_scsi_disk (p_name p) (p_stat p)) \<Longrightarrow> get_diskstats dss (p_name p) = None \<Longrightarrow>
   \<not> p_malloc p \<Longrightarrow> probe c p dss = ([Stderr ''out of memory''], dss, Some 2)"
  by (auto simp: probe_def is_scsi_disk_def split: option.splits)

lemma probe_Some:
  assumes "probe c p dss = (ev, dss', Some rc)"
  shows "snd (is_scsi_disk (p_name p) (p_stat p)) \<and> get_diskstats dss (p_name p) = None \<and>
         \<not> p_malloc p \<and> ev = [Stderr ''out of memory''] \<and> dss' = dss \<and> rc = 2"
proof (cases "get_diskstats dss (p_name p)")
  case None
  then show ?thesis
    using assms
    by (auto simp: probe_def is_scsi_disk_def split: option.splits if_splits prod.splits
        bool.splits)
next
  case (Some i)
  then show ?thesis
    using assms
    by (auto simp: probe_def is_scsi_disk_def split: option.splits if_splits prod.splits
        bool.splits)
qed

lemma read_stats_decompose:
  "read_stats c ls dss = (ev, dss', Some rc) \<Longrightarrow>
   \<exists>l1 p l2 e1.
     ls = l1 @ Some p # l2 \<and> read_stats c l1 dss = (e1, dss', None) \<and>
     snd (is_scsi_disk (p_name p) (p_stat p)) \<and> get_diskstats dss' (p_name p) = None \<and>
     \<not> p_malloc p \<and> ev = e1 @ [Stderr ''out of memory''] \<and> rc = 2"
proof (induction ls arbitrary: dss ev)
  case Nil
  then show ?case by simp
next
  case (Cons l ls)
  show ?case
  proof (cases l)
    case None
    then have "read_stats c ls dss = (ev, dss', Some rc)"
      using Cons.prems by simp
    from Cons.IH [OF this] obtain l1 p l2 e1 where
      d: "ls = l1 @ Some p # l2" "read_stats c l1 dss = (e1, dss', None)"
        "snd (is_scsi_disk (p_name p) (p_stat p))" "get_diskstats dss' (p_name p) = None"
        "\<not> p_malloc p" "ev = e1 @ [Stderr ''out of memory'']" "rc = 2"
      by blast
    show ?thesis
      apply (rule exI [of _ "None # l1"])
      apply (rule exI [of _ p])
      apply (rule exI [of _ l2])
      apply (rule exI [of _ e1])
      using d None by simp
  next
    case (Some q)
    obtain ev1 dss1 r1 where q: "probe c q dss = (ev1, dss1, r1)"
      by (cases "probe c q dss") auto
    show ?thesis
    proof (cases r1)
      case fail: (Some rc1)
      note f = probe_Some [OF q [unfolded fail]]
      have e: "ev = ev1 \<and> dss' = dss1 \<and> rc = rc1"
        using Cons.prems Some q fail by simp
      show ?thesis
        apply (rule exI [of _ "[]"])
        apply (rule exI [of _ q])
        apply (rule exI [of _ ls])
        apply (rule exI [of _ "[]"])
        using e f Some by simp
    next
      case ok: None
      obtain ev2 dss2 r2 where rest: "read_stats c ls dss1 = (ev2, dss2, r2)"
        by (cases "read_stats c ls dss1") auto
      have fin: "ev = ev1 @ ev2" "dss' = dss2" "r2 = Some rc"
        using Cons.prems Some q ok rest by auto
      from Cons.IH [OF rest [unfolded fin(3), folded fin(2)]] obtain l1 p l2 e1 where
        d: "ls = l1 @ Some p # l2" "read_stats c l1 dss1 = (e1, dss', None)"
          "snd (is_scsi_disk (p_name p) (p_stat p))" "get_diskstats dss' (p_name p) = None"
          "\<not> p_malloc p" "ev2 = e1 @ [Stderr ''out of memory'']" "rc = 2"
        by blast
      have run: "read_stats c (Some q # l1) dss = (ev1 @ e1, dss', None)"
        using q ok d(2) by simp
      show ?thesis
        apply (rule exI [of _ "Some q # l1"])
        apply (rule exI [of _ p])
        apply (rule exI [of _ l2])
        apply (rule exI [of _ "ev1 @ e1"])
        using run d Some fin(1) by simp
    qed
  qed
qed

lemma read_stats_no_failure:
  "\<forall>p. Some p \<in> set ls \<longrightarrow> p_malloc p \<Longrightarrow> read_stats c ls dss = (ev, dss', r) \<Longrightarrow> r = None"
proof (cases r)
  case None
  then show "r = None" .
next
  case (Some rc)
  assume a: "\<forall>p. Some p \<in> set ls \<longrightarrow> p_malloc p" and rd: "read_stats c ls dss = (ev, dss', r)"
  from read_stats_decompose [OF rd [unfolded Some]] obtain l1 p l2 where
    "ls = l1 @ Some p # l2" "\<not> p_malloc p"
    by blast
  then show "r = None" using a by auto
qed

lemma main_loop_no_failure:
  assumes "\<forall>t\<in>set ts. \<exists>ls. t_stat t = Some ls \<and> (\<forall>p. Some p \<in> set ls \<longrightarrow> p_malloc p)"
    and "main_loop c slp ts dss = (ev, dss', r)"
  shows "r \<noteq> Some 2"
proof
  assume "r = Some 2"
  from main_loop_decompose [OF assms(2) [unfolded this]] obtain pre t post ev0 dss0 where
    d: "ts = pre @ t # post"
    and w: "t_brk1 t \<and> (2::int) = 0 \<and> ev = ev0 \<and> dss' = dss0 \<or>
      \<not> t_brk1 t \<and> t_stat t = None \<and> (2::int) = 2 \<and>
        ev = ev0 @ [Stderr ''/proc/diskstats''] \<and> dss' = dss0 \<or>
      (\<exists>ls ev1. \<not> t_brk1 t \<and> t_stat t = Some ls \<and>
         read_stats c ls dss0 = (ev1, dss', Some 2) \<and> (2::int) = 2 \<and>
         ev = ev0 @ Fopen_stat # ev1) \<or>
      (\<exists>ls ev1. \<not> t_brk1 t \<and> t_stat t = Some ls \<and>
         read_stats c ls dss0 = (ev1, dss', None) \<and> t_brk2 t \<and> (2::int) = 0 \<and>
         ev = ev0 @ Fopen_stat # ev1 @ [Fclose_stat])"
    by blast
  have "t \<in> set ts" using d by simp
  then obtain ls where ls: "t_stat t = Some ls" "\<forall>p. Some p \<in> set ls \<longrightarrow> p_malloc p"
    using assms(1) by blast
  from w ls(1) obtain ev1 where "read_stats c ls dss0 = (ev1, dss', Some 2)"
    by auto
  then show False
    using read_stats_no_failure [OF ls(2)] by blast
qed

text \<open>
  C9, as amended. The poll loop is run on any finite sequence of iterations.

  It has left with return code 0, has left with return code 2, or is still running. It
  has left with 0 exactly at the first iteration that finds \<^verbatim>\<open>break_loop\<close> set at one
  of the two checkpoints: all earlier iterations ran to their \<^verbatim>\<open>sleep\<close>, and the
  statistics file is closed. Whenever some iteration finds the flag set, the loop has
  left. When it has left with 2, the last thing it did was to report that the statistics
  file cannot be opened or that memory is exhausted. While it is still running, no
  checkpoint has seen the flag and the statistics file is closed.

  Whenever the loop has left, it did so at an iteration reached with the loop still
  running, in one of four ways: the flag is set at the first checkpoint, and the loop
  leaves with 0 before the statistics file is opened, trace and registry as they were;
  the statistics file cannot be opened, and the loop leaves with 2; the snapshot ends
  with return code 2, and the loop leaves with 2; the snapshot is read to its end, the
  file is closed, the flag is set at the second checkpoint, and the loop leaves with 0.
  Conversely each of the four makes the loop leave in that way, whatever iterations would
  follow; and an iteration at which none of them happens ends with the \<^verbatim>\<open>sleep\<close> and
  leaves the loop running.

  A snapshot ends with a return code exactly when one of its lines brings a disk that
  \<^verbatim>\<open>is_scsi_disk\<close> accepts and the registry does not know, and \<^verbatim>\<open>malloc\<close> fails;
  the code is 2. When the statistics file can always be opened and no \<^verbatim>\<open>malloc\<close>
  fails, the loop never leaves with 2, and it has left with 0 exactly when some
  checkpoint has seen the flag.
\<close>

theorem poll_loop_exits:
  "(main_loop c slp ts dss = (ev, dss', r) \<longrightarrow>
      (r = None \<or> r = Some 0 \<or> r = Some 2) \<and>
      (r = Some 0 \<longrightarrow>
         takeWhile unflagged ts \<noteq> ts \<and>
         length (filter is_sleep ev) = length (takeWhile unflagged ts) \<and> \<not> stat_open ev) \<and>
      ((\<exists>t\<in>set ts. t_brk1 t \<or> t_brk2 t) \<longrightarrow> r \<noteq> None) \<and>
      (r = None \<longrightarrow>
         (\<forall>t\<in>set ts. unflagged t) \<and> length (filter is_sleep ev) = length ts \<and>
         \<not> stat_open ev) \<and>
      (r = Some 2 \<longrightarrow>
         ev \<noteq> [] \<and> is_fatal_report (last ev) \<and>
         length (filter is_sleep ev) \<le> length (takeWhile unflagged ts)) \<and>
      (r \<noteq> None \<longrightarrow>
         (\<exists>pre t post ev0 dss0.
            ts = pre @ t # post \<and> main_loop c slp pre dss = (ev0, dss0, None) \<and>
            (t_brk1 t \<and> r = Some 0 \<and> ev = ev0 \<and> dss' = dss0 \<or>
             \<not> t_brk1 t \<and> t_stat t = None \<and> r = Some 2 \<and>
               ev = ev0 @ [Stderr ''/proc/diskstats''] \<and> dss' = dss0 \<or>
             (\<exists>ls ev1. \<not> t_brk1 t \<and> t_stat t = Some ls \<and>
                read_stats c ls dss0 = (ev1, dss', Some 2) \<and> r = Some 2 \<and>
                ev = ev0 @ Fopen_stat # ev1) \<or>
             (\<exists>ls ev1. \<not> t_brk1 t \<and> t_stat t = Some ls \<and>
                read_stats c ls dss0 = (ev1, dss', None) \<and> t_brk2 t \<and> r = Some 0 \<and>
                ev = ev0 @ Fopen_stat # ev1 @ [Fclose_stat])))) \<and>
      ((\<forall>t\<in>set ts. \<exists>ls. t_stat t = Some ls \<and> (\<forall>p. Some p \<in> set ls \<longrightarrow> p_malloc p)) \<longrightarrow>
         r \<noteq> Some 2 \<and> ((r = Some 0) = (\<exists>t\<in>set ts. t_brk1 t \<or> t_brk2 t)))) \<and>
   (main_loop c slp before dss = (evb, dssb, None) \<longrightarrow>
      (t_brk1 u \<longrightarrow> main_loop c slp (before @ u # after) dss = (evb, dssb, Some 0)) \<and>
      (\<not> t_brk1 u \<and> t_stat u = None \<longrightarrow>
         main_loop c slp (before @ u # after) dss =
           (evb @ [Stderr ''/proc/diskstats''], dssb, Some 2)) \<and>
      (\<not> t_brk1 u \<and> t_stat u = Some ls \<and> read_stats c ls dssb = (evt, dsst, Some rc) \<longrightarrow>
         rc = 2 \<and>
         main_loop c slp (before @ u # after) dss = (evb @ Fopen_stat # evt, dsst, Some 2)) \<and>
      (\<not> t_brk1 u \<and> t_stat u = Some ls \<and> read_stats c ls dssb = (evt, dsst, None) \<and>
       t_brk2 u \<longrightarrow>
         main_loop c slp (before @ u # after) dss =
           (evb @ Fopen_stat # evt @ [Fclose_stat], dsst, Some 0)) \<and>
      (\<not> t_brk1 u \<and> t_stat u = Some ls \<and> read_stats c ls dssb = (evt, dsst, None) \<and>
       \<not> t_brk2 u \<longrightarrow>
         main_loop c slp (before @ [u]) dss =
           (evb @ Fopen_stat # evt @ [Fclose_stat, Sleep slp], dsst, None))) \<and>
   (read_stats c lsa rs = (ea, da, None) \<and> snd (is_scsi_disk (p_name p) (p_stat p)) \<and>
    get_diskstats da (p_name p) = None \<and> \<not> p_malloc p \<longrightarrow>
      read_stats c (lsa @ Some p # lsb) rs = (ea @ [Stderr ''out of memory''], da, Some 2)) \<and>
   (read_stats c ls rs = (ef, df, Some rc) \<longrightarrow>
      rc = 2 \<and>
      (\<exists>lsa p lsb ea.
         ls = lsa @ Some p # lsb \<and> read_stats c lsa rs = (ea, df, None) \<and>
         snd (is_scsi_disk (p_name p) (p_stat p)) \<and> get_diskstats df (p_name p) = None \<and>
         \<not> p_malloc p \<and> ef = ea @ [Stderr ''out of memory'']))"
  (is "(?run \<longrightarrow> ?R) \<and> (?before \<longrightarrow> ?S) \<and> ?O \<and> ?P")
proof (intro conjI)
  show "?run \<longrightarrow> ?R"
  proof
    assume run: ?run
    note e = main_loop_exit [OF run]
    have all: "r = None \<Longrightarrow> \<forall>t\<in>set ts. unflagged t"
      using e by (simp add: takeWhile_eq_all_conv)
    have flag: "(\<exists>t\<in>set ts. t_brk1 t \<or> t_brk2 t) \<longrightarrow> r \<noteq> None"
      using all by (auto simp: unflagged_def)
    have some: "\<exists>t\<in>set ts. t_brk1 t \<or> t_brk2 t" if "r = Some 0"
    proof -
      have "takeWhile unflagged ts \<noteq> ts" using e that by simp
      then have "\<not> (\<forall>t\<in>set ts. unflagged t)" by (simp add: takeWhile_eq_all_conv)
      then show ?thesis by (auto simp: unflagged_def)
    qed
    show ?R (is "_ \<and> _ \<and> _ \<and> _ \<and> _ \<and> (_ \<longrightarrow> ?D) \<and> (?ok \<longrightarrow> ?N)")
    proof -
      have dec: "r \<noteq> None \<longrightarrow> ?D"
      proof
        assume "r \<noteq> None"
        then obtain rc where rc: "r = Some rc" by auto
        show ?D
          using main_loop_decompose [OF run [unfolded rc]] unfolding rc by simp
      qed
      have nofail: "?ok \<longrightarrow> ?N"
      proof
        assume ok: ?ok
        have "r \<noteq> Some 2"
          using main_loop_no_failure [OF ok run] .
        then show ?N
          using some flag e by blast
      qed
      show ?thesis
        apply (intro conjI)
        using e apply blast
        using e apply blast
        using flag apply blast
        using e all apply blast
        using e apply blast
        using dec apply blast
        using nofail by blast
    qed
  qed
next
  show "?before \<longrightarrow> ?S"
  proof
    assume run: ?before
    note app = main_loop_append [OF run]
    have rc2: "read_stats c ls dssb = (evt, dsst, Some rc) \<Longrightarrow> rc = 2"
      using read_stats_inner by fastforce
    show ?S
      using rc2 by (auto simp: app)
  qed
next
  show ?O
    by (auto simp: read_stats_append probe_no_memory)
next
  show ?P
    using read_stats_decompose [of c ls rs ef df rc] by blast
qed

theorem poll_loop_exits_witness:
  "main_loop config0 60 [snapshot 1000, flagged_before, snapshot 1120] [] =
     ([Fopen_stat, Fclose_stat, Sleep 60], [new_disk (it_root config0) (at30 1000)], Some 0) \<and>
   main_loop config0 60 [snapshot 1000, flagged_after 1060, snapshot 1120] [] =
     ([Fopen_stat, Fclose_stat, Sleep 60, Fopen_stat, Fclose_stat],
      [new_disk (it_root config0) (at30 1000)], Some 0) \<and>
   main_loop config0 60 [snapshot 1000, no_stat_tick, snapshot 1120] [] =
     ([Fopen_stat, Fclose_stat, Sleep 60, Stderr ''/proc/diskstats''],
      [new_disk (it_root config0) (at30 1000)], Some 2) \<and>
   main_loop config0 60 [snapshot 1000, oom_after, snapshot 1120] [] =
     ([Fopen_stat, Fclose_stat, Sleep 60, Fopen_stat, Stderr ''out of memory''],
      [new_disk (it_root config0) (at30 1000)], Some 2) \<and>
   takeWhile unflagged [snapshot 1000, flagged_after 1060, snapshot 1120] = [snapshot 1000] \<and>
   \<not> stat_open [Fopen_stat, Fclose_stat, Sleep 60, Fopen_stat, Fclose_stat]"
proof -
  let ?d = "[new_disk (it_root config0) (at30 1000)]"
  let ?e = "[Fopen_stat, Fclose_stat, Sleep 60]"
  have pre: "main_loop config0 60 [snapshot 1000] [] = (?e, ?d, None)"
    by (simp add: snapshot_def at30_def probe_def is_scsi_disk_def)
  have rd: "read_stats config0 [Some (at30 1060)] ?d = ([], ?d, None)"
    by (simp add: at30_def probe_def is_scsi_disk_def new_disk_def known_disk_def
        it_root_def config0_def DEFAULT_IDLE_TIME_def)
  note step = poll_loop_exits [where c = config0 and slp = 60 and dss = "[]"
      and before = "[snapshot 1000]" and evb = ?e and dssb = ?d and after = "[snapshot 1120]",
      THEN conjunct2, THEN conjunct1, rule_format, OF pre]
  have one: "main_loop config0 60 ([snapshot 1000] @ flagged_before # [snapshot 1120]) [] =
      (?e, ?d, Some 0)"
    using step [where u = flagged_before] by (simp add: flagged_before_def)
  have two: "main_loop config0 60 ([snapshot 1000] @ flagged_after 1060 # [snapshot 1120]) [] =
      (?e @ Fopen_stat # [] @ [Fclose_stat], ?d, Some 0)"
    using step [where u = "flagged_after 1060" and ls = "[Some (at30 1060)]"
        and evt = "[]" and dsst = ?d] rd
    by (simp add: flagged_after_def)
  have three: "main_loop config0 60 ([snapshot 1000] @ no_stat_tick # [snapshot 1120]) [] =
      (?e @ [Stderr ''/proc/diskstats''], ?d, Some 2)"
    using step [where u = no_stat_tick] by (simp add: no_stat_tick_def)
  have "read_stats config0 ([Some (at30 1060)] @ Some newcomer # [Some (at30 1061)]) ?d =
      ([] @ [Stderr ''out of memory''], ?d, Some 2)"
    using poll_loop_exits [where c = config0 and lsa = "[Some (at30 1060)]" and rs = ?d
        and ea = "[]" and da = ?d and p = newcomer and lsb = "[Some (at30 1061)]",
        THEN conjunct2, THEN conjunct2, THEN conjunct1] rd
    by (simp add: newcomer_def is_scsi_disk_def new_disk_def at30_def)
  then have rd2: "read_stats config0 [Some (at30 1060), Some newcomer, Some (at30 1061)] ?d =
      ([Stderr ''out of memory''], ?d, Some 2)"
    by simp
  have four: "main_loop config0 60 ([snapshot 1000] @ oom_after # [snapshot 1120]) [] =
      (?e @ Fopen_stat # [Stderr ''out of memory''], ?d, Some 2)"
    using step [where u = oom_after
        and ls = "[Some (at30 1060), Some newcomer, Some (at30 1061)]"
        and evt = "[Stderr ''out of memory'']" and dsst = ?d and rc = 2] rd2
    by (simp add: oom_after_def)
  have t: "takeWhile unflagged [snapshot 1000, flagged_after 1060, snapshot 1120] =
      [snapshot 1000]"
    by (simp add: unflagged_def snapshot_def flagged_after_def)
  have s: "\<not> stat_open [Fopen_stat, Fclose_stat, Sleep 60, Fopen_stat, Fclose_stat]"
    by (simp add: stat_open_def handle_step_def)
  show ?thesis
    using one two three four t s by simp
qed

text \<open>
  The claim as stated fails: no checkpoint sees the flag, and the loop ends all the same,
  once in the middle of a snapshot with the statistics file open (no memory for the
  record of a new disk), once because the statistics file cannot be opened.
\<close>

theorem poll_loop_counterexample:
  "main_loop config0 60 [oom_tick] [] = ([Fopen_stat, Stderr ''out of memory''], [], Some 2) \<and>
   stat_open [Fopen_stat, Stderr ''out of memory''] \<and>
   unflagged oom_tick \<and>
   main_loop config0 60 [no_stat_tick] [] = ([Stderr ''/proc/diskstats''], [], Some 2) \<and>
   unflagged no_stat_tick"
  by (simp add: oom_tick_def no_stat_tick_def at30_def probe_def is_scsi_disk_def
      stat_open_def handle_step_def unflagged_def)

section \<open>The registry seen from one disk\<close>

lemma probe_projection:
  assumes "get_diskstats dss nm = Some i" and "probe c p dss = (ev, dss', None)"
  shows "\<exists>j. get_diskstats dss' nm = Some j \<and>
           (if p_name p = nm \<and> snd (is_scsi_disk (p_name p) (p_stat p))
            then (ev, dss' ! j) = known_disk (have_logfile c) (logfile c) p (dss ! i)
            else dss' ! j = dss ! i \<and> filter (is_spindown_of nm) ev = [])"
proof (cases "p_name p = nm")
  case other: False
  have "\<exists>j. get_diskstats dss' nm = Some j \<and> dss' ! j = dss ! i"
    using probe_other [OF assms(1) other assms(2)] .
  moreover have "filter (is_spindown_of nm) ev = []"
  proof (cases "snd (is_scsi_disk (p_name p) (p_stat p))")
    case False
    then show ?thesis
      using assms(2) is_scsi_disk_no_spindown [of _ "p_name p" "p_stat p" nm]
      by (auto simp: probe_def filter_empty_conv split: prod.splits)
  next
    case scsi: True
    show ?thesis
    proof (cases "get_diskstats dss (p_name p)")
      case None
      then show ?thesis
        using assms(2) scsi
        by (auto simp: probe_def is_scsi_disk_def split: prod.splits if_splits option.splits)
    next
      case (Some k)
      then have k: "name (dss ! k) = p_name p"
        using get_diskstats_Some by blast
      have "ev = fst (known_disk (have_logfile c) (logfile c) p (dss ! k))"
        using probe_known [OF scsi Some, of c] assms(2) by simp
      then show ?thesis
        using known_disk_spindown_of [of _ "have_logfile c" "logfile c" p "dss ! k" nm] k other
        by (auto simp: filter_empty_conv)
    qed
  qed
  ultimately show ?thesis using other by auto
next
  case mine: True
  show ?thesis
  proof (cases "snd (is_scsi_disk (p_name p) (p_stat p))")
    case False
    then have "dss' = dss" "filter (is_spindown_of nm) ev = []"
      using assms(2) is_scsi_disk_no_spindown [of _ "p_name p" "p_stat p" nm]
      by (auto simp: probe_def filter_empty_conv split: prod.splits)
    then show ?thesis using assms(1) False by auto
  next
    case scsi: True
    have i: "i < length dss" "name (dss ! i) = nm"
      using assms(1) get_diskstats_Some by blast+
    let ?k = "known_disk (have_logfile c) (logfile c) p (dss ! i)"
    have pk: "ev = fst ?k" "dss' = dss[i := snd ?k]"
      using probe_known [OF scsi, of dss i c] assms mine by simp_all
    have "get_diskstats dss' nm = Some i"
      unfolding pk using get_diskstats_update [OF i(1), of "snd ?k" nm] assms(1)
      by (simp add: known_disk_name)
    moreover have "dss' ! i = snd ?k"
      unfolding pk using i(1) by simp
    ultimately show ?thesis
      using mine scsi pk(1) by (auto simp: prod_eq_iff)
  qed
qed

lemma read_stats_projection:
  "get_diskstats dss nm = Some i \<Longrightarrow> read_stats c ls dss = (ev, dss', None) \<Longrightarrow>
   \<exists>j. get_diskstats dss' nm = Some j \<and>
       dss' ! j = snd (run_known (have_logfile c) (logfile c) (lines_of nm ls) (dss ! i)) \<and>
       filter (is_spindown_of nm) ev =
         filter (is_spindown_of nm)
           (fst (run_known (have_logfile c) (logfile c) (lines_of nm ls) (dss ! i)))"
proof (induction ls arbitrary: dss i ev dss')
  case Nil
  then show ?case by simp
next
  case (Cons l ls)
  show ?case
  proof (cases l)
    case None
    then show ?thesis using Cons by simp
  next
    case (Some p)
    obtain ev1 dss1 r1 where p: "probe c p dss = (ev1, dss1, r1)"
      by (cases "probe c p dss") auto
    have r1: "r1 = None"
      using Cons.prems(2) Some p by (cases r1) auto
    obtain ev2 dss2 r2 where rest: "read_stats c ls dss1 = (ev2, dss2, r2)"
      by (cases "read_stats c ls dss1") auto
    have fin: "ev = ev1 @ ev2" "dss' = dss2" "r2 = None"
      using Cons.prems(2) Some p r1 rest by auto
    obtain j where j: "get_diskstats dss1 nm = Some j"
      and step: "if p_name p = nm \<and> snd (is_scsi_disk (p_name p) (p_stat p))
            then (ev1, dss1 ! j) = known_disk (have_logfile c) (logfile c) p (dss ! i)
            else dss1 ! j = dss ! i \<and> filter (is_spindown_of nm) ev1 = []"
      using probe_projection [OF Cons.prems(1) p [unfolded r1]] by blast
    from Cons.IH [OF j rest [unfolded fin(3)]] obtain j' where
      ih: "get_diskstats dss2 nm = Some j'"
        "dss2 ! j' = snd (run_known (have_logfile c) (logfile c) (lines_of nm ls) (dss1 ! j))"
        "filter (is_spindown_of nm) ev2 =
           filter (is_spindown_of nm)
             (fst (run_known (have_logfile c) (logfile c) (lines_of nm ls) (dss1 ! j)))"
      by blast
    show ?thesis
    proof (cases "p_name p = nm \<and> snd (is_scsi_disk (p_name p) (p_stat p))")
      case True
      then have "known_disk (have_logfile c) (logfile c) p (dss ! i) = (ev1, dss1 ! j)"
        using step by (auto split: if_splits)
      then show ?thesis
        using True Some fin ih by (auto split: prod.splits)
    next
      case False
      then show ?thesis
        using step Some fin ih by auto
    qed
  qed
qed

lemma lines_of_append: "lines_of nm (xs @ ys) = lines_of nm xs @ lines_of nm ys"
  by (induction nm xs rule: lines_of.induct) auto

lemma main_loop_projection:
  "get_diskstats dss nm = Some i \<Longrightarrow> main_loop c slp ts dss = (ev, dss', None) \<Longrightarrow>
   \<exists>j. get_diskstats dss' nm = Some j \<and>
       dss' ! j =
         snd (run_known (have_logfile c) (logfile c) (lines_of nm (tick_lines ts)) (dss ! i)) \<and>
       filter (is_spindown_of nm) ev =
         filter (is_spindown_of nm)
           (fst (run_known (have_logfile c) (logfile c) (lines_of nm (tick_lines ts)) (dss ! i)))"
proof (induction ts arbitrary: dss i ev dss')
  case Nil
  then show ?case by simp
next
  case (Cons t ts)
  have b1: "\<not> t_brk1 t"
    using Cons.prems(2) by (auto split: if_splits)
  then obtain ls where ls: "t_stat t = Some ls"
    using Cons.prems(2) by (cases "t_stat t") auto
  obtain ev1 dss1 r1 where rd: "read_stats c ls dss = (ev1, dss1, r1)"
    by (cases "read_stats c ls dss") auto
  have r1: "r1 = None" and b2: "\<not> t_brk2 t"
    using Cons.prems(2) b1 ls rd by (auto split: option.splits if_splits)
  obtain ev2 dss2 r2 where rest: "main_loop c slp ts dss1 = (ev2, dss2, r2)"
    by (cases "main_loop c slp ts dss1") auto
  have fin: "ev = Fopen_stat # ev1 @ [Fclose_stat, Sleep slp] @ ev2" "dss' = dss2" "r2 = None"
    using Cons.prems(2) b1 b2 ls rd r1 rest by auto
  let ?run = "run_known (have_logfile c) (logfile c)"
  from read_stats_projection [OF Cons.prems(1) rd [unfolded r1]] obtain j where
    j: "get_diskstats dss1 nm = Some j"
      "dss1 ! j = snd (?run (lines_of nm ls) (dss ! i))"
      "filter (is_spindown_of nm) ev1 = filter (is_spindown_of nm) (fst (?run (lines_of nm ls) (dss ! i)))"
    by blast
  from Cons.IH [OF j(1) rest [unfolded fin(3)]] obtain j' where
    ih: "get_diskstats dss2 nm = Some j'"
      "dss2 ! j' = snd (?run (lines_of nm (tick_lines ts)) (dss1 ! j))"
      "filter (is_spindown_of nm) ev2 =
         filter (is_spindown_of nm) (fst (?run (lines_of nm (tick_lines ts)) (dss1 ! j)))"
    by blast
  have "filter (is_spindown_of nm) ev =
      filter (is_spindown_of nm) ev1 @ filter (is_spindown_of nm) ev2"
    unfolding fin(1) by (simp add: is_spindown_of_def)
  then show ?case
    using ls fin(2) j ih
    by (auto simp: lines_of_append run_known_append split: prod.splits)
qed

text \<open>
  C1. A running disk with idle time \<open>T > 0\<close> is polled with unchanged counters: first
  the polls \<open>pre\<close>, all with \<open>now - last_io < T\<close>, then \<open>p0\<close>, the first poll with
  \<open>now - last_io \<ge> T\<close>, then any polls \<open>post\<close>. The polls before \<open>p0\<close> do nothing;
  \<open>p0\<close> calls \<^verbatim>\<open>spindown_disk\<close> once, sets \<open>spindown\<close> to its \<open>now\<close> and
  \<open>spun_down\<close> to true; the polls after \<open>p0\<close> do nothing. Over the whole sequence
  \<^verbatim>\<open>spindown_disk\<close> is called exactly once. The same holds in the poll loop: when
  these polls are the lines that successive snapshots bring for the disk, among lines of
  any other disks, the trace of the loop has exactly one call of \<^verbatim>\<open>spindown_disk\<close> for
  the disk, and its record ends spun down at the \<open>now\<close> of \<open>p0\<close>.
\<close>

theorem spindown_exactly_once:
  assumes "0 < idle_time ds" and "\<not> spun_down ds"
    and "\<forall>p\<in>set (pre @ p0 # post). p_reads p = reads ds \<and> p_writes p = writes ds"
    and "\<forall>p\<in>set pre. p_now p - last_io ds < idle_time ds"
    and "idle_time ds \<le> p_now p0 - last_io ds"
  shows "run_known hl lf pre ds = ([], ds) \<and>
         known_disk hl lf p0 ds =
           ([Spindown (name ds) (spindown_disk (name ds) (p_sg p0))],
            ds\<lparr>spindown := p_now p0, spun_down := True\<rparr>) \<and>
         run_known hl lf post (ds\<lparr>spindown := p_now p0, spun_down := True\<rparr>) =
           ([], ds\<lparr>spindown := p_now p0, spun_down := True\<rparr>) \<and>
         run_known hl lf (pre @ p0 # post) ds =
           ([Spindown (name ds) (spindown_disk (name ds) (p_sg p0))],
            ds\<lparr>spindown := p_now p0, spun_down := True\<rparr>) \<and>
         (main_loop c slp ts dss = (ev, dss', None) \<and> get_diskstats dss nm = Some i \<and>
          dss ! i = ds \<and> lines_of nm (tick_lines ts) = pre @ p0 # post \<longrightarrow>
            filter (is_spindown_of nm) ev = [Spindown nm (spindown_disk nm (p_sg p0))] \<and>
            (\<exists>j. get_diskstats dss' nm = Some j \<and>
                 dss' ! j = ds\<lparr>spindown := p_now p0, spun_down := True\<rparr>))"
proof -
  let ?ds' = "ds\<lparr>spindown := p_now p0, spun_down := True\<rparr>"
  let ?sd = "Spindown (name ds) (spindown_disk (name ds) (p_sg p0))"
  have pre: "run_known hl lf pre ds = ([], ds)" for hl lf
    using assms(3,4) by (intro run_known_quiet) auto
  have fire: "known_disk hl lf p0 ds = ([?sd], ?ds')" for hl lf
    using assms by (intro known_disk_fires) auto
  have post: "run_known hl lf post ?ds' = ([], ?ds')" for hl lf
    using assms(3) by (intro run_known_quiet) auto
  have whole: "run_known hl lf (pre @ p0 # post) ds = ([?sd], ?ds')" for hl lf
    using pre fire post by (simp add: run_known_append)
  have loop: "filter (is_spindown_of nm) ev = [Spindown nm (spindown_disk nm (p_sg p0))] \<and>
      (\<exists>j. get_diskstats dss' nm = Some j \<and> dss' ! j = ?ds')"
    if run: "main_loop c slp ts dss = (ev, dss', None)" and i: "get_diskstats dss nm = Some i"
      and ds: "dss ! i = ds" and ls: "lines_of nm (tick_lines ts) = pre @ p0 # post"
  proof -
    have nm: "name ds = nm"
      using i ds get_diskstats_Some by blast
    show ?thesis
      using main_loop_projection [OF i run] whole [of "have_logfile c" "logfile c"] nm
      by (auto simp: ds ls is_spindown_of_def)
  qed
  show ?thesis
    using pre fire post whole loop by blast
qed

theorem spindown_exactly_once_witness:
  "run_known False [] [at30 1010, at30 1020, at30 1030, at30 1040, at30 1050] ds30 =
     ([Spindown ''sdb'' (spindown_disk ''sdb'' (Sg_done 0 []))],
      ds30\<lparr>spindown := 1030, spun_down := True\<rparr>) \<and>
   filter (is_spindown_of ''sdb'') (fst (main_loop config0 3 polls30 [ds30])) =
     [Spindown ''sdb'' (spindown_disk ''sdb'' (Sg_done 0 []))] \<and>
   fst (snd (main_loop config0 3 polls30 [ds30])) = [ds30\<lparr>spindown := 1030, spun_down := True\<rparr>]"
proof -
  let ?ev = "[Fopen_stat, Fclose_stat, Sleep 3, Fopen_stat, Fclose_stat, Sleep 3,
      Fopen_stat, Spindown ''sdb'' (spindown_disk ''sdb'' (Sg_done 0 [])), Fclose_stat, Sleep 3,
      Fopen_stat, Fclose_stat, Sleep 3, Fopen_stat, Fclose_stat, Sleep 3]"
  have run: "main_loop config0 3 polls30 [ds30] =
      (?ev, [ds30\<lparr>spindown := 1030, spun_down := True\<rparr>], None)"
    by (simp add: polls30_def snapshot_def at30_def ds30_def probe_def is_scsi_disk_def
        known_disk_def)
  have ls: "lines_of ''sdb'' (tick_lines polls30) =
      [at30 1010, at30 1020] @ at30 1030 # [at30 1040, at30 1050]"
    by (simp add: polls30_def snapshot_def at30_def is_scsi_disk_def)
  have i: "get_diskstats [ds30] ''sdb'' = Some 0"
    by (simp add: ds30_def)
  show ?thesis
    using spindown_exactly_once [of ds30 "[at30 1010, at30 1020]" "at30 1030"
        "[at30 1040, at30 1050]" False "[]" config0 3 polls30 "[ds30]" ?ev
        "[ds30\<lparr>spindown := 1030, spun_down := True\<rparr>]" "''sdb''" 0] run ls i
    by (simp add: ds30_def at30_def)
qed

end
